theory Spec2Isabelle
  imports Main "HOL-Library.Word" "HOL-Library.Sublist"
begin

unbundle bit_operations_syntax

section \<open>Bytes, errors and the connection\<close>

text \<open>
  A Go \<open>byte\<close> is an 8-bit word, \<open>uint32\<close> a 32-bit word and \<open>int64\<close> a 64-bit word
  read as two's complement. A Go \<open>string\<close> is a sequence of bytes; it is modelled as an
  Isabelle \<open>string\<close>, whose characters are exactly the 256 byte values. The conversions
  \<open>[]byte(s)\<close> and \<open>string(bs)\<close> map the two representations onto each other.
\<close>

type_synonym byte = "8 word"

definition bytes_of_string :: "string \<Rightarrow> byte list" where
  "bytes_of_string s = map (\<lambda>c. of_nat (of_char c)) s"

definition string_of_bytes :: "byte list \<Rightarrow> string" where
  "string_of_bytes bs = map (\<lambda>b. char_of (unat b)) bs"

text \<open>
  Go errors are values with an identity and a message. \<open>EOF\<close> and \<open>ErrUnexpectedEOF\<close> are
  the two sentinels of package \<open>io\<close>; \<open>ErrorString\<close> is any other error that only carries
  its message (an error of the network stack or of the file system, or one made by
  \<open>fmt.Errorf\<close> without \<open>%w\<close>); \<open>WrapError p e\<close> is \<open>fmt.Errorf(p + ": %w", e)\<close>.
\<close>

datatype error = EOF | ErrUnexpectedEOF | ErrorString string | WrapError string error

fun Error :: "error \<Rightarrow> string" where
  "Error EOF = ''EOF''"
| "Error ErrUnexpectedEOF = ''unexpected EOF''"
| "Error (ErrorString s) = s"
| "Error (WrapError p e) = p @ '': '' @ Error e"

text \<open>
  \<open>net.Conn\<close>, seen from one endpoint. Reading: \<open>inbuf\<close> holds the bytes the peer will
  still deliver, and once they are used up every \<open>Read\<close> returns \<open>inerr\<close> (\<open>EOF\<close> when
  the peer closed the stream, another error for a reset). Writing: \<open>outbuf\<close> collects
  the bytes written so far; \<open>room = None\<close> is a connection on which writes never
  fail, \<open>room = Some k\<close> one that accepts \<open>k\<close> more bytes and then fails every write
  with \<open>outerr\<close>.
\<close>

record conn =
  inbuf :: "byte list"
  inerr :: error
  outbuf :: "byte list"
  room :: "nat option"
  outerr :: error

definition conn_Write :: "conn \<Rightarrow> byte list \<Rightarrow> error option \<times> conn" where
  "conn_Write c p =
     (case room c of
        None \<Rightarrow> (None, c\<lparr>outbuf := outbuf c @ p\<rparr>)
      | Some k \<Rightarrow>
          if length p \<le> k
          then (None, c\<lparr>outbuf := outbuf c @ p, room := Some (k - length p)\<rparr>)
          else (Some (outerr c), c\<lparr>outbuf := outbuf c @ take k p, room := Some 0\<rparr>))"

text \<open>
  \<open>io.ReadFull(conn, buf)\<close> with \<open>len(buf) = n\<close>: it returns the bytes read and the
  error. With \<open>n\<close> bytes available it fills the buffer (for \<open>n = 0\<close> it does not read at
  all). Otherwise it takes what is there and reports the connection's error, except that \<open>EOF\<close>
  after at least one byte becomes \<open>ErrUnexpectedEOF\<close>.
\<close>

definition ReadFull :: "conn \<Rightarrow> nat \<Rightarrow> (byte list \<times> error option) \<times> conn" where
  "ReadFull c n =
     (if n \<le> length (inbuf c)
      then ((take n (inbuf c), None), c\<lparr>inbuf := drop n (inbuf c)\<rparr>)
      else ((inbuf c,
             Some (if inbuf c \<noteq> [] \<and> inerr c = EOF then ErrUnexpectedEOF else inerr c)),
            c\<lparr>inbuf := []\<rparr>))"

subsection \<open>Big-endian integers (package \<open>encoding/binary\<close>)\<close>

definition put_uint32 :: "32 word \<Rightarrow> byte list" where
  "put_uint32 v = [ucast (drop_bit 24 v), ucast (drop_bit 16 v), ucast (drop_bit 8 v), ucast v]"

definition get_uint32 :: "byte list \<Rightarrow> 32 word" where
  "get_uint32 b =
     ucast (b ! 3) OR push_bit 8 (ucast (b ! 2)) OR push_bit 16 (ucast (b ! 1))
       OR push_bit 24 (ucast (b ! 0))"

definition put_uint64 :: "64 word \<Rightarrow> byte list" where
  "put_uint64 v =
     [ucast (drop_bit 56 v), ucast (drop_bit 48 v), ucast (drop_bit 40 v), ucast (drop_bit 32 v),
      ucast (drop_bit 24 v), ucast (drop_bit 16 v), ucast (drop_bit 8 v), ucast v]"

definition get_uint64 :: "byte list \<Rightarrow> 64 word" where
  "get_uint64 b =
     ucast (b ! 7) OR push_bit 8 (ucast (b ! 6)) OR push_bit 16 (ucast (b ! 5))
       OR push_bit 24 (ucast (b ! 4)) OR push_bit 32 (ucast (b ! 3))
       OR push_bit 40 (ucast (b ! 2)) OR push_bit 48 (ucast (b ! 1))
       OR push_bit 56 (ucast (b ! 0))"

text \<open>
  \<open>binary.Write\<close> of a fixed-size integer is one \<open>Write\<close> of its bytes; \<open>binary.Read\<close>
  is one \<open>io.ReadFull\<close> of as many bytes, decoded only when all of them arrived.
\<close>

definition binary_Write32 :: "conn \<Rightarrow> 32 word \<Rightarrow> error option \<times> conn" where
  "binary_Write32 c v = conn_Write c (put_uint32 v)"

definition binary_Write64 :: "conn \<Rightarrow> 64 word \<Rightarrow> error option \<times> conn" where
  "binary_Write64 c v = conn_Write c (put_uint64 v)"

definition binary_Read32 :: "conn \<Rightarrow> (error + 32 word) \<times> conn" where
  "binary_Read32 c =
     (case ReadFull c 4 of
        ((bs, Some e), c') \<Rightarrow> (Inl e, c')
      | ((bs, None), c') \<Rightarrow> (Inr (get_uint32 bs), c'))"

definition binary_Read64 :: "conn \<Rightarrow> (error + 64 word) \<times> conn" where
  "binary_Read64 c =
     (case ReadFull c 8 of
        ((bs, Some e), c') \<Rightarrow> (Inl e, c')
      | ((bs, None), c') \<Rightarrow> (Inr (get_uint64 bs), c'))"

section \<open>The frame codec\<close>

definition maxFilenameLen :: nat where
  "maxFilenameLen = 255"

definition chunkSize :: nat where
  "chunkSize = 32 * 1024"

definition receiveDir :: string where
  "receiveDir = ''received''"

record FileInfo =
  Filename :: string
  FileSize :: "64 word"
  IsDirectory :: bool

text \<open>Decimal digits of a number, as \<open>%d\<close> prints them.\<close>

fun decimal :: "nat \<Rightarrow> string" where
  "decimal n =
     (if n < 10 then [''0123456789'' ! n]
      else decimal (n div 10) @ [''0123456789'' ! (n mod 10)])"

declare decimal.simps [simp del]

definition sendFileInfo :: "conn \<Rightarrow> FileInfo \<Rightarrow> error option \<times> conn" where
  "sendFileInfo c fi =
     (let filenameBytes = bytes_of_string (Filename fi);
          filenameLen = (of_nat (length filenameBytes) :: 32 word)
      in case binary_Write32 c filenameLen of
           (Some e, c1) \<Rightarrow> (Some e, c1)
         | (None, c1) \<Rightarrow>
      (case conn_Write c1 filenameBytes of
           (Some e, c2) \<Rightarrow> (Some e, c2)
         | (None, c2) \<Rightarrow>
      (case binary_Write64 c2 (FileSize fi) of
           (Some e, c3) \<Rightarrow> (Some e, c3)
         | (None, c3) \<Rightarrow>
      (let isDir = (if IsDirectory fi then 1 else 0 :: byte)
       in case conn_Write c3 [isDir] of
           (Some e, c4) \<Rightarrow> (Some e, c4)
         | (None, c4) \<Rightarrow> (None, c4)))))"

definition receiveFileInfo :: "conn \<Rightarrow> (error + FileInfo) \<times> conn" where
  "receiveFileInfo c =
     (case binary_Read32 c of
        (Inl e, c1) \<Rightarrow> (Inl e, c1)
      | (Inr filenameLen, c1) \<Rightarrow>
     if unat filenameLen > maxFilenameLen
     then (Inl (ErrorString (''filename too long: '' @ decimal (unat filenameLen) @ '' bytes'')), c1)
     else
     (case ReadFull c1 (unat filenameLen) of
        ((bs, Some e), c2) \<Rightarrow> (Inl e, c2)
      | ((filenameBytes, None), c2) \<Rightarrow>
     (case binary_Read64 c2 of
        (Inl e, c3) \<Rightarrow> (Inl e, c3)
      | (Inr fileSize, c3) \<Rightarrow>
     (case ReadFull c3 1 of
        ((bs, Some e), c4) \<Rightarrow> (Inl e, c4)
      | ((dirFlag, None), c4) \<Rightarrow>
          (Inr \<lparr>Filename = string_of_bytes filenameBytes,
                FileSize = fileSize,
                IsDirectory = (dirFlag ! 0 = 1)\<rparr>, c4)))))"

text \<open>
  The bytes of one frame, in wire order: what \<open>sendFileInfo\<close> writes on a connection
  whose writes succeed (lemma \<open>sendFileInfo_healthy\<close>).
\<close>

definition frame_bytes :: "FileInfo \<Rightarrow> byte list" where
  "frame_bytes fi =
     put_uint32 (of_nat (length (Filename fi))) @ bytes_of_string (Filename fi) @
     put_uint64 (FileSize fi) @ [if IsDirectory fi then 1 else 0]"

section \<open>Paths (package \<open>path/filepath\<close>)\<close>

text \<open>
  The host convention is the separator character: \<open>/\<close> on Unix, the backslash on
  Windows, where \<open>/\<close> is accepted as a separator too. Windows volume names
  (\<open>C:\<close>, UNC prefixes) are outside this model: paths are taken without a volume.
\<close>

datatype host = Unix | Windows

fun Separator :: "host \<Rightarrow> char" where
  "Separator Unix = CHR ''/''"
| "Separator Windows = CHR 0x5C"

fun IsPathSeparator :: "host \<Rightarrow> char \<Rightarrow> bool" where
  "IsPathSeparator Unix c = (c = CHR ''/'')"
| "IsPathSeparator Windows c = (c = CHR 0x5C \<or> c = CHR ''/'')"

definition ToSlash :: "host \<Rightarrow> string \<Rightarrow> string" where
  "ToSlash h path =
     (if Separator h = CHR ''/'' then path
      else map (\<lambda>c. if c = Separator h then CHR ''/'' else c) path)"

definition FromSlash :: "host \<Rightarrow> string \<Rightarrow> string" where
  "FromSlash h path =
     (if Separator h = CHR ''/'' then path
      else map (\<lambda>c. if c = CHR ''/'' then Separator h else c) path)"

text \<open>The elements of a path: the pieces between separators (empty pieces included).\<close>

fun splitBy :: "(char \<Rightarrow> bool) \<Rightarrow> string \<Rightarrow> string list" where
  "splitBy P [] = [[]]"
| "splitBy P (c # cs) =
     (if P c then [] # splitBy P cs
      else (case splitBy P cs of [] \<Rightarrow> [[c]] | x # xs \<Rightarrow> (c # x) # xs))"

fun join_with :: "char \<Rightarrow> string list \<Rightarrow> string" where
  "join_with s [] = []"
| "join_with s [x] = x"
| "join_with s (x # y # ys) = x @ s # join_with s (y # ys)"

text \<open>
  \<open>Clean\<close> reads the elements from left to right and keeps the cleaned elements on a
  stack (its head is the last element written): empty elements and \<open>.\<close> are dropped;
  \<open>..\<close> removes the last real element, is dropped at the root of a rooted path, and is
  kept in front of a relative one; every other element is appended. An empty result is
  \<open>.\<close>.
\<close>

definition clean_step :: "bool \<Rightarrow> string \<Rightarrow> string list \<Rightarrow> string list" where
  "clean_step rooted e st =
     (if e = [] \<or> e = ''.'' then st
      else if e = ''..''
      then (if st \<noteq> [] \<and> hd st \<noteq> ''..'' then tl st
            else if rooted then st else ''..'' # st)
      else e # st)"

definition is_rooted :: "host \<Rightarrow> string \<Rightarrow> bool" where
  "is_rooted h path = (path \<noteq> [] \<and> IsPathSeparator h (hd path))"

definition clean_elems :: "host \<Rightarrow> string \<Rightarrow> string list" where
  "clean_elems h path =
     rev (fold (clean_step (is_rooted h path)) (splitBy (IsPathSeparator h) path) [])"

definition Clean :: "host \<Rightarrow> string \<Rightarrow> string" where
  "Clean h path =
     (if is_rooted h path then Separator h # join_with (Separator h) (clean_elems h path)
      else if clean_elems h path = [] then ''.''
      else join_with (Separator h) (clean_elems h path))"

text \<open>\<open>Join\<close> of two elements: empty leading elements are ignored, the rest is cleaned.\<close>

definition Join :: "host \<Rightarrow> string \<Rightarrow> string \<Rightarrow> string" where
  "Join h a b =
     (if a \<noteq> [] then Clean h (a @ Separator h # b)
      else if b \<noteq> [] then Clean h b
      else [])"

definition Base :: "host \<Rightarrow> string \<Rightarrow> string" where
  "Base h path =
     (if path = [] then ''.''
      else (let stripped = rev (dropWhile (IsPathSeparator h) (rev path));
                element = rev (takeWhile (\<lambda>c. \<not> IsPathSeparator h c) (rev stripped))
            in if element = [] then [Separator h] else element))"

definition Dir :: "host \<Rightarrow> string \<Rightarrow> string" where
  "Dir h path = Clean h (rev (dropWhile (\<lambda>c. \<not> IsPathSeparator h c) (rev path)))"

text \<open>
  \<open>Abs\<close> needs the working directory, which \<open>os.Getwd\<close> may fail to give.
\<close>

definition Abs :: "host \<Rightarrow> error + string \<Rightarrow> string \<Rightarrow> error + string" where
  "Abs h wd path =
     (if is_rooted h path then Inr (Clean h path)
      else (case wd of Inl e \<Rightarrow> Inl e | Inr cwd \<Rightarrow> Inr (Join h cwd path)))"

text \<open>
  \<open>Rel\<close>, after its documentation: both paths are cleaned and compared element by
  element; the common leading elements are dropped, one \<open>..\<close> is written for every
  element left of the base and the elements left of the target follow. It fails when only
  one of the paths is rooted, and when an element left of the base is \<open>..\<close> (the
  answer would depend on the working directory).
\<close>

fun drop_common :: "string list \<Rightarrow> string list \<Rightarrow> string list \<times> string list" where
  "drop_common (x # xs) (y # ys) = (if x = y then drop_common xs ys else (x # xs, y # ys))"
| "drop_common xs ys = (xs, ys)"

definition Rel :: "host \<Rightarrow> string \<Rightarrow> string \<Rightarrow> error + string" where
  "Rel h basepath targpath =
     (let cant = ErrorString (''Rel: can't make '' @ targpath @ '' relative to '' @ basepath)
      in if Clean h targpath = Clean h basepath then Inr ''.''
         else if is_rooted h basepath \<noteq> is_rooted h targpath then Inl cant
         else (case drop_common (clean_elems h basepath) (clean_elems h targpath) of
                 (bs, ts) \<Rightarrow>
                   if ''..'' \<in> set bs then Inl cant
                   else Inr (join_with (Separator h) (map (\<lambda>_. ''..'') bs @ ts))))"

section \<open>The receiving file system (package \<open>os\<close>)\<close>

text \<open>
  What the receiver's disk holds: a directory or a file with its bytes under every
  (cleaned) path, and the free space (\<open>None\<close>: writes never fail). The directories
  \<open>.\<close>, the root and \<open>..\<close>, \<open>../..\<close>, ... always exist. There are no symbolic
  links and no permission failures.
\<close>

datatype fnode = FDir | FFile "byte list"

record filesys =
  nodes :: "string \<Rightarrow> fnode option"
  free :: "nat option"

definition is_anchor :: "host \<Rightarrow> string \<Rightarrow> bool" where
  "is_anchor h p = (p = ''.'' \<or> p = [Separator h] \<or>
     (\<not> is_rooted h p \<and> list_all (\<lambda>e. e = ''..'') (splitBy (IsPathSeparator h) p)))"

definition Stat :: "host \<Rightarrow> filesys \<Rightarrow> string \<Rightarrow> fnode option" where
  "Stat h fs path =
     (if path = [] then None
      else if is_anchor h (Clean h path) then Some FDir
      else nodes fs (Clean h path))"

text \<open>The prefixes of a cleaned path that end at an element boundary, shortest first.\<close>

fun ancestors :: "host \<Rightarrow> string \<Rightarrow> string \<Rightarrow> string list" where
  "ancestors h acc [] = [rev acc]"
| "ancestors h acc (c # cs) =
     (if IsPathSeparator h c \<and> acc \<noteq> [] then [rev acc] else []) @ ancestors h (c # acc) cs"

text \<open>
  \<open>os.MkdirAll\<close>: every missing directory on the way to the path is created; it fails
  when the path or one of its parents is a file.
\<close>

fun mkdirs :: "host \<Rightarrow> string list \<Rightarrow> filesys \<Rightarrow> error option \<times> filesys" where
  "mkdirs h [] fs = (None, fs)"
| "mkdirs h (p # ps) fs =
     (case Stat h fs p of
        Some (FFile bs) \<Rightarrow> (Some (ErrorString (''mkdir '' @ p @ '': not a directory'')), fs)
      | Some FDir \<Rightarrow> mkdirs h ps fs
      | None \<Rightarrow> mkdirs h ps (fs\<lparr>nodes := (nodes fs)(p \<mapsto> FDir)\<rparr>))"

definition MkdirAll :: "host \<Rightarrow> filesys \<Rightarrow> string \<Rightarrow> error option \<times> filesys" where
  "MkdirAll h fs path =
     (if path = [] then (Some (ErrorString ''mkdir : no such file or directory''), fs)
      else mkdirs h (ancestors h [] (Clean h path)) fs)"

text \<open>
  \<open>os.Create\<close> truncates or creates the file; it fails on a directory and when the
  parent directory is missing. The open file is known by its cleaned path.
\<close>

definition Create :: "host \<Rightarrow> filesys \<Rightarrow> string \<Rightarrow> error + filesys" where
  "Create h fs path =
     (case Stat h fs path of
        Some FDir \<Rightarrow> Inl (ErrorString (''open '' @ path @ '': is a directory''))
      | _ \<Rightarrow>
        (case Stat h fs (Dir h (Clean h path)) of
           Some FDir \<Rightarrow> Inr (fs\<lparr>nodes := (nodes fs)(Clean h path \<mapsto> FFile [])\<rparr>)
         | _ \<Rightarrow> Inl (ErrorString (''open '' @ path @ '': no such file or directory''))))"

definition file_content :: "filesys \<Rightarrow> string \<Rightarrow> byte list" where
  "file_content fs p = (case nodes fs p of Some (FFile bs) \<Rightarrow> bs | _ \<Rightarrow> [])"

definition file_Write :: "host \<Rightarrow> filesys \<Rightarrow> string \<Rightarrow> byte list \<Rightarrow> error option \<times> filesys" where
  "file_Write h fs path p =
     (let f = Clean h path
      in case free fs of
           None \<Rightarrow> (None, fs\<lparr>nodes := (nodes fs)(f \<mapsto> FFile (file_content fs f @ p))\<rparr>)
         | Some k \<Rightarrow>
             if length p \<le> k
             then (None, fs\<lparr>nodes := (nodes fs)(f \<mapsto> FFile (file_content fs f @ p)),
                            free := Some (k - length p)\<rparr>)
             else (Some (ErrorString (''write '' @ path @ '': no space left on device'')),
                   fs\<lparr>nodes := (nodes fs)(f \<mapsto> FFile (file_content fs f @ take k p)),
                      free := Some 0\<rparr>))"

section \<open>Progress accounting\<close>

text \<open>
  The byte counters are \<open>int64\<close> in the source. They are modelled as integers: every
  value they take is a number of bytes of one file or a declared size, and no sum or
  difference computed from them leaves the 64-bit range.

  The clock is an input: \<open>now k\<close> is the time in milliseconds that the \<open>k\<close>-th reading
  of the clock returns.
\<close>

record ProgressWriter =
  total :: int
  current :: int
  lastPrint :: int
  startTime :: int
  filename :: string

text \<open>
  What the progress tracker does is recorded in a log: \<open>Observe v\<close> when \<open>printProgress\<close>
  is called while \<open>current\<close> is \<open>v\<close>, \<open>Display v\<close> when it prints a progress line showing
  \<open>v\<close> bytes, \<open>Final v\<close> for the summary line of \<open>Finalize\<close>.
\<close>

datatype event = Observe int | Display int | Final int

text \<open>
  The state of one process: its connection, the receiving file system, the global
  \<open>progressWriter\<close>, the log, the number of clock readings made so far, and the
  descriptors handed to \<open>sendFileInfo\<close> so far (a history variable).
\<close>

record world =
  wconn :: conn
  disk :: filesys
  pw :: ProgressWriter
  log :: "event list"
  ticks :: nat
  sent :: "FileInfo list"

definition NewProgressWriter :: "(nat \<Rightarrow> int) \<Rightarrow> int \<Rightarrow> string \<Rightarrow> world \<Rightarrow> world" where
  "NewProgressWriter now tot name w =
     w\<lparr>pw := \<lparr>total = tot, current = 0, lastPrint = 0, startTime = now (ticks w), filename = name\<rparr>,
       ticks := Suc (ticks w)\<rparr>"

definition set_current :: "int \<Rightarrow> world \<Rightarrow> world" where
  "set_current v w = w\<lparr>pw := (pw w)\<lparr>current := v\<rparr>\<rparr>"

definition printProgress :: "(nat \<Rightarrow> int) \<Rightarrow> world \<Rightarrow> world" where
  "printProgress now w =
     (let elapsed = now (ticks w) - startTime (pw w);
          w1 = w\<lparr>ticks := Suc (ticks w), log := log w @ [Observe (current (pw w))]\<rparr>
      in if current (pw w) - lastPrint (pw w) < 1024 \<and> elapsed mod 100 \<noteq> 0 then w1
         else
           (let w2 = (if total (pw w) > 0 \<and> current (pw w) \<ge> total (pw w)
                      then set_current (total (pw w)) w1 else w1)
            in w2\<lparr>log := log w2 @ [Display (current (pw w2))],
                  pw := (pw w2)\<lparr>lastPrint := current (pw w2)\<rparr>\<rparr>))"

definition Finalize :: "(nat \<Rightarrow> int) \<Rightarrow> world \<Rightarrow> world" where
  "Finalize now w =
     (let w1 = w\<lparr>ticks := Suc (ticks w)\<rparr>;
          w2 = (if total (pw w) > 0 then set_current (total (pw w)) w1 else w1)
      in w2\<lparr>log := log w2 @ [Final (current (pw w2))]\<rparr>)"

section \<open>The receiver\<close>

text \<open>\<open>strings.Contains\<close>.\<close>

primrec contains :: "string \<Rightarrow> string \<Rightarrow> bool" where
  "contains [] sub = (sub = [])"
| "contains (c # cs) sub = (take (length sub) (c # cs) = sub \<or> contains cs sub)"

text \<open>
  The test of \<open>receiveFileRaw\<close> that takes a failure of \<open>receiveFileInfo\<close> for the normal
  end of the connection.
\<close>

definition normal_termination :: "error \<Rightarrow> bool" where
  "normal_termination err =
     (err = EOF \<or> contains (Error err) ''closed'' \<or> contains (Error err) ''reset''
        \<or> contains (Error err) ''unexpected EOF'')"

text \<open>
  The content loop of \<open>receiveFileRaw\<close>: the file at \<open>fullPath\<close> is open, \<open>fileSize\<close> is the
  declared size and \<open>totalReceived\<close> the number of bytes written so far. It returns the
  error of the early \<open>return\<close>, or no error when the loop is left. The loop has no bound
  on the number of its rounds, so it is a partial function: \<open>None\<close> is a run that never
  leaves the loop.
\<close>

partial_function (option) receiveContent ::
  "host \<Rightarrow> (nat \<Rightarrow> int) \<Rightarrow> string \<Rightarrow> int \<Rightarrow> int \<Rightarrow> world \<Rightarrow> (error option \<times> world) option"
where
  "receiveContent h now fullPath fileSize totalReceived w =
     (if totalReceived < fileSize then
        (let remaining = fileSize - totalReceived;
             readSize = (if remaining < int chunkSize then nat remaining else chunkSize)
         in case ReadFull (wconn w) readSize of
              ((buf, err), c') \<Rightarrow>
                if err \<noteq> None \<and> err \<noteq> Some EOF \<and> err \<noteq> Some ErrUnexpectedEOF
                then Some (err, w\<lparr>wconn := c'\<rparr>)
                else
                  (case file_Write h (disk w) fullPath buf of
                     (Some e, fs') \<Rightarrow> Some (Some e, w\<lparr>wconn := c', disk := fs'\<rparr>)
                   | (None, fs') \<Rightarrow>
                       (let totalReceived' = totalReceived + int (length buf);
                            w' = printProgress now
                                   (set_current totalReceived' (w\<lparr>wconn := c', disk := fs'\<rparr>))
                        in if totalReceived' \<ge> fileSize then Some (None, w')
                           else receiveContent h now fullPath fileSize totalReceived' w')))
      else Some (None, w))"

text \<open>
  \<open>receiveFileRaw\<close>: one round of the outer loop per frame. The result is the returned
  error (\<open>None\<close> for \<open>nil\<close>) and the final state.
\<close>

partial_function (option) receiveFileRaw ::
  "host \<Rightarrow> (nat \<Rightarrow> int) \<Rightarrow> world \<Rightarrow> (error option \<times> world) option"
where
  "receiveFileRaw h now w =
     (case receiveFileInfo (wconn w) of
        (Inl err, c') \<Rightarrow>
          if normal_termination err then Some (None, w\<lparr>wconn := c'\<rparr>)
          else Some (Some (WrapError ''failed to receive file info'' err), w\<lparr>wconn := c'\<rparr>)
      | (Inr fi, c') \<Rightarrow>
     (case MkdirAll h (disk w) receiveDir of
        (Some e, fs1) \<Rightarrow>
          Some (Some (WrapError ''cannot create directory'' e), w\<lparr>wconn := c', disk := fs1\<rparr>)
      | (None, fs1) \<Rightarrow>
     (let normalizedPath = FromSlash h (Filename fi);
          fullPath = Join h receiveDir normalizedPath
      in if IsDirectory fi then
           (case MkdirAll h fs1 fullPath of
              (Some e, fs2) \<Rightarrow>
                Some (Some (WrapError ''cannot create directory'' e), w\<lparr>wconn := c', disk := fs2\<rparr>)
            | (None, fs2) \<Rightarrow> receiveFileRaw h now (w\<lparr>wconn := c', disk := fs2\<rparr>))
         else
           (let parentDir = Dir h fullPath
            in case (if parentDir \<noteq> ''.'' \<and> parentDir \<noteq> receiveDir
                     then MkdirAll h fs1 parentDir else (None, fs1)) of
                 (Some e, fs2) \<Rightarrow>
                   Some (Some (WrapError ''cannot create parent directory'' e),
                         w\<lparr>wconn := c', disk := fs2\<rparr>)
               | (None, fs2) \<Rightarrow>
            (case Create h fs2 fullPath of
               Inl e \<Rightarrow>
                 Some (Some (WrapError ''cannot create file'' e), w\<lparr>wconn := c', disk := fs2\<rparr>)
             | Inr fs3 \<Rightarrow>
            (let w1 = NewProgressWriter now (sint (FileSize fi)) (Base h (Filename fi))
                        (w\<lparr>wconn := c', disk := fs3\<rparr>)
             in case receiveContent h now fullPath (sint (FileSize fi)) 0 w1 of
                  None \<Rightarrow> None
                | Some (Some e, w2) \<Rightarrow> Some (Some e, w2)
                | Some (None, w2) \<Rightarrow>
                    receiveFileRaw h now
                      (Finalize now
                        (printProgress now (set_current (sint (FileSize fi)) w2)))))))))"

declare receiveContent.simps [code]
declare receiveFileRaw.simps [code]

section \<open>Sample states\<close>

text \<open>
  A connection without input whose writes succeed, and a process on a fresh disk.
\<close>

definition conn0 :: conn where
  "conn0 = \<lparr>inbuf = [], inerr = EOF, outbuf = [], room = None,
            outerr = ErrorString ''broken pipe''\<rparr>"

definition world0 :: world where
  "world0 = \<lparr>wconn = conn0, disk = \<lparr>nodes = Map.empty, free = None\<rparr>,
     pw = \<lparr>total = 0, current = 0, lastPrint = 0, startTime = 0, filename = []\<rparr>,
     log = [], ticks = 0, sent = []\<rparr>"

definition clock0 :: "nat \<Rightarrow> int" where
  "clock0 k = 0"

text \<open>
  A cleaned path lies within a root directory when it is the root or continues it after a
  separator. The progress values of a log are the values of \<open>current\<close> at its
  observations: the calls of \<open>printProgress\<close> and the summary of \<open>Finalize\<close>.
\<close>

definition within_root :: "host \<Rightarrow> string \<Rightarrow> string \<Rightarrow> bool" where
  "within_root h root p = (p = root \<or> take (Suc (length root)) p = root @ [Separator h])"

fun observed :: "event \<Rightarrow> int list" where
  "observed (Observe v) = [v]"
| "observed (Display v) = []"
| "observed (Final v) = [v]"

definition observations :: "event list \<Rightarrow> int list" where
  "observations evs = concat (map observed evs)"

section \<open>The sender\<close>

text \<open>
  What the sender finds under a path. A regular file has the error of \<open>os.Open\<close> or
  \<open>Stat\<close> if they fail, the size that \<open>Stat\<close> reports, the bytes that reading it
  yields, and the condition that ends the reading (\<open>EOF\<close>, or a read error). The size
  and the bytes are independent: a file may grow or shrink between \<open>Stat\<close> and the
  reads, and some files report the size 0 whatever they hold. A directory has the error of
  reading its entries if that fails, and its entries in the order of their names.
  \<open>Failing e\<close> is a path whose \<open>Stat\<close> or \<open>Lstat\<close> fails with \<open>e\<close>. Symbolic
  links are outside the model.
\<close>

datatype node =
    FileN "error option" "64 word" "byte list" error
  | DirN "error option" entries
  | Failing error
and entries = ENil | ECons string node entries

text \<open>\<open>sendFileInfo\<close> on the connection of the process, recorded in the history.\<close>

definition sendFileInfo_logged :: "world \<Rightarrow> FileInfo \<Rightarrow> error option \<times> world" where
  "sendFileInfo_logged w fi =
     (case sendFileInfo (wconn w) fi of
        (r, c') \<Rightarrow> (r, w\<lparr>wconn := c', sent := sent w @ [fi]\<rparr>))"

text \<open>
  \<open>file.Read(buffer)\<close> with a buffer of \<open>chunkSize\<close> bytes: the next bytes of the file,
  at most a buffer full, or no byte and the condition that ends the reading.
\<close>

definition file_Read :: "byte list \<Rightarrow> error \<Rightarrow> (byte list \<times> error option) \<times> byte list" where
  "file_Read data fend =
     (if data = [] then (([], Some fend), [])
      else ((take chunkSize data, None), drop chunkSize data))"

text \<open>The loop of \<open>sendSingleFile\<close> that sends the content.\<close>

function sendContent ::
  "(nat \<Rightarrow> int) \<Rightarrow> byte list \<Rightarrow> error \<Rightarrow> int \<Rightarrow> world \<Rightarrow> error option \<times> world"
where
  "sendContent now data fend totalSent w =
     (case file_Read data fend of
        ((buf, err), data') \<Rightarrow>
          if err \<noteq> None \<and> err \<noteq> Some EOF then (err, w)
          else if length buf = 0 then (None, w)
          else
            (case conn_Write (wconn w) buf of
               (Some e, c') \<Rightarrow> (Some e, w\<lparr>wconn := c'\<rparr>)
             | (None, c') \<Rightarrow>
                 (let totalSent' = totalSent + int (length buf);
                      w' = printProgress now (set_current totalSent' (w\<lparr>wconn := c'\<rparr>))
                  in if err = Some EOF then (None, w')
                     else sendContent now data' fend totalSent' w')))"
  by pat_completeness auto
termination
  by (relation "measure (\<lambda>(now, data, fend, totalSent, w). length data)")
    (auto simp: file_Read_def chunkSize_def split: if_splits)

declare sendContent.simps [simp del]

text \<open>
  \<open>sendSingleFile\<close> for a regular file, given by what opening and reading it yields. The
  deferred \<open>Finalize\<close> runs on every return after the progress tracker was made.
\<close>

definition sendSingleFile ::
  "host \<Rightarrow> (nat \<Rightarrow> int) \<Rightarrow> world \<Rightarrow> error option \<Rightarrow> 64 word \<Rightarrow> byte list \<Rightarrow> error \<Rightarrow> string
     \<Rightarrow> error option \<times> world"
where
  "sendSingleFile h now w openErr statSize data fend name =
     (case openErr of
        Some e \<Rightarrow> (Some e, w)
      | None \<Rightarrow>
     (let fi = \<lparr>Filename = name, FileSize = statSize, IsDirectory = False\<rparr>
      in case sendFileInfo_logged w fi of
           (Some e, w1) \<Rightarrow> (Some (WrapError ''failed to send file info'' e), w1)
         | (None, w1) \<Rightarrow>
     (let w2 = NewProgressWriter now (sint (FileSize fi)) (Base h name) w1
      in case sendContent now data fend 0 w2 of
           (Some e, w3) \<Rightarrow> (Some e, Finalize now w3)
         | (None, w3) \<Rightarrow>
             (None, Finalize now (printProgress now (set_current (sint (FileSize fi)) w3))))))"

text \<open>
  The function that \<open>sendDirectoryRaw\<close> hands to \<open>filepath.Walk\<close>, called for the path
  \<open>path\<close> at which \<open>n\<close> was found (\<open>wd\<close> is what \<open>os.Getwd\<close> returns).
\<close>

definition visit ::
  "host \<Rightarrow> (nat \<Rightarrow> int) \<Rightarrow> error + string \<Rightarrow> string \<Rightarrow> string \<Rightarrow> string \<Rightarrow> node \<Rightarrow> world
     \<Rightarrow> error option \<times> world"
where
  "visit h now wd dirPath absDirPath path n w =
     (case n of
        Failing e \<Rightarrow> (Some e, w)
      | DirN (Some e) es \<Rightarrow> (Some e, w)
      | _ \<Rightarrow>
     if path = dirPath then (None, w)
     else
     (case Abs h wd path of
        Inl e \<Rightarrow> (Some e, w)
      | Inr absPath \<Rightarrow>
     (case Rel h absDirPath absPath of
        Inl e \<Rightarrow> (Some e, w)
      | Inr relPath \<Rightarrow>
     (let baseName = Base h absDirPath;
          fullRelPath = ToSlash h (Join h baseName relPath)
      in case n of
           DirN rd es \<Rightarrow>
             (case sendFileInfo_logged w
                     \<lparr>Filename = fullRelPath, FileSize = 0, IsDirectory = True\<rparr> of
                (Some e, w1) \<Rightarrow> (Some (WrapError ''failed to send subdirectory info'' e), w1)
              | (None, w1) \<Rightarrow> (None, w1))
         | FileN openErr statSize data fend \<Rightarrow>
             (case sendSingleFile h now w openErr statSize data fend fullRelPath of
                (Some e, w1) \<Rightarrow> (Some (WrapError (''failed to send file '' @ path) e), w1)
              | (None, w1) \<Rightarrow> (None, w1))
         | Failing e \<Rightarrow> (Some e, w)))))"

text \<open>
  \<open>filepath.Walk\<close>: the function is called for a path and then, for a directory, the
  entries are walked in order under the joined paths; the first error ends the walk. (The
  function above never returns \<open>SkipDir\<close>.)
\<close>

fun walk ::
  "host \<Rightarrow> (nat \<Rightarrow> int) \<Rightarrow> error + string \<Rightarrow> string \<Rightarrow> string \<Rightarrow> string \<Rightarrow> node \<Rightarrow> world
     \<Rightarrow> error option \<times> world"
and walk_entries ::
  "host \<Rightarrow> (nat \<Rightarrow> int) \<Rightarrow> error + string \<Rightarrow> string \<Rightarrow> string \<Rightarrow> string \<Rightarrow> entries \<Rightarrow> world
     \<Rightarrow> error option \<times> world"
where
  "walk h now wd dirPath absDirPath path (DirN rd es) w =
     (case visit h now wd dirPath absDirPath path (DirN rd es) w of
        (Some e, w1) \<Rightarrow> (Some e, w1)
      | (None, w1) \<Rightarrow> walk_entries h now wd dirPath absDirPath path es w1)"
| "walk h now wd dirPath absDirPath path (FileN openErr statSize data fend) w =
     visit h now wd dirPath absDirPath path (FileN openErr statSize data fend) w"
| "walk h now wd dirPath absDirPath path (Failing e) w =
     visit h now wd dirPath absDirPath path (Failing e) w"
| "walk_entries h now wd dirPath absDirPath path ENil w = (None, w)"
| "walk_entries h now wd dirPath absDirPath path (ECons name n es) w =
     (case walk h now wd dirPath absDirPath (Join h path name) n w of
        (Some e, w1) \<Rightarrow> (Some e, w1)
      | (None, w1) \<Rightarrow> walk_entries h now wd dirPath absDirPath path es w1)"

definition sendDirectoryRaw ::
  "host \<Rightarrow> (nat \<Rightarrow> int) \<Rightarrow> error + string \<Rightarrow> world \<Rightarrow> string \<Rightarrow> node \<Rightarrow> error option \<times> world"
where
  "sendDirectoryRaw h now wd w dirPath root =
     (case Abs h wd dirPath of
        Inl e \<Rightarrow> (Some e, w)
      | Inr absDirPath \<Rightarrow>
     (let rootDirInfo = \<lparr>Filename = Base h dirPath, FileSize = 0, IsDirectory = True\<rparr>
      in case sendFileInfo_logged w rootDirInfo of
           (Some e, w1) \<Rightarrow> (Some (WrapError ''failed to send root directory info'' e), w1)
         | (None, w1) \<Rightarrow> walk h now wd dirPath absDirPath dirPath root w1))"

definition sendFileRaw ::
  "host \<Rightarrow> (nat \<Rightarrow> int) \<Rightarrow> error + string \<Rightarrow> world \<Rightarrow> string \<Rightarrow> node \<Rightarrow> error option \<times> world"
where
  "sendFileRaw h now wd w filePath n =
     (case n of
        Failing e \<Rightarrow> (Some e, w)
      | DirN rd es \<Rightarrow> sendDirectoryRaw h now wd w filePath n
      | FileN openErr statSize data fend \<Rightarrow>
          sendSingleFile h now w openErr statSize data fend (Base h filePath))"

text \<open>
  The descriptors and the log entries that a run added, and a sample directory:
  \<open>dir\<close> holds the file \<open>a.txt\<close> (3 bytes) and the directory \<open>sub\<close> with the
  empty file \<open>b\<close>.
\<close>

definition new_sent :: "world \<Rightarrow> world \<Rightarrow> FileInfo list" where
  "new_sent w w' = drop (length (sent w)) (sent w')"

definition new_log :: "world \<Rightarrow> world \<Rightarrow> event list" where
  "new_log w w' = drop (length (log w)) (log w')"

definition sample_dir :: node where
  "sample_dir =
     DirN None
       (ECons ''a.txt'' (FileN None 3 [1, 2, 3] EOF)
       (ECons ''sub'' (DirN None (ECons ''b'' (FileN None 0 [] EOF) ENil))
        ENil))"

text \<open>
  A name that an entry of a directory can have on the host: not empty, not \<open>.\<close> or
  \<open>..\<close>, and without a path separator. \<open>tree_paths\<close> lists the descendants of a
  directory in the order of the walk, each by the names that lead to it from the directory.
\<close>

definition valid_name :: "host \<Rightarrow> string \<Rightarrow> bool" where
  "valid_name h n =
     (n \<noteq> [] \<and> n \<noteq> ''.'' \<and> n \<noteq> ''..'' \<and> list_all (\<lambda>c. \<not> IsPathSeparator h c) n)"

fun valid_node :: "host \<Rightarrow> node \<Rightarrow> bool"
and valid_entries :: "host \<Rightarrow> entries \<Rightarrow> bool"
where
  "valid_node h (DirN rd es) = valid_entries h es"
| "valid_node h (FileN openErr statSize data fend) = True"
| "valid_node h (Failing e) = True"
| "valid_entries h ENil = True"
| "valid_entries h (ECons name n es) = (valid_name h name \<and> valid_node h n \<and> valid_entries h es)"

fun node_paths :: "string list \<Rightarrow> node \<Rightarrow> string list list"
and tree_paths :: "string list \<Rightarrow> entries \<Rightarrow> string list list"
where
  "node_paths pre (DirN rd es) = tree_paths pre es"
| "node_paths pre (FileN openErr statSize data fend) = []"
| "node_paths pre (Failing e) = []"
| "tree_paths pre ENil = []"
| "tree_paths pre (ECons name n es) =
     (pre @ [name]) # node_paths (pre @ [name]) n @ tree_paths pre es"

text \<open>An element that \<open>Clean\<close> keeps as it is.\<close>

definition real_elem :: "string \<Rightarrow> bool" where
  "real_elem e = (e \<noteq> [] \<and> e \<noteq> ''.'' \<and> e \<noteq> ''..'')"

section \<open>Properties of the frame codec\<close>

subsection \<open>Big-endian encoding is invertible\<close>

lemma bit_byte_at:
  "bit (push_bit k (ucast (ucast (drop_bit k v) :: byte)) :: 'a::len word) n \<longleftrightarrow>
     k \<le> n \<and> n < k + 8 \<and> n < LENGTH('a) \<and> bit (v :: 'a word) n"
  by (auto simp: bit_simps)

lemma bit_byte_low:
  "bit (ucast (ucast v :: byte) :: 'a::len word) n \<longleftrightarrow> n < 8 \<and> bit (v :: 'a word) n"
  by (auto simp: bit_simps dest: bit_imp_le_length)

lemma get_put_uint64: "get_uint64 (put_uint64 v) = v"
proof (rule bit_word_eqI)
  fix n assume "n < LENGTH(64)"
  then have n: "n < 64" by simp
  have "bit (get_uint64 (put_uint64 v)) n \<longleftrightarrow> n < 64 \<and> bit v n"
    unfolding get_uint64_def put_uint64_def
    by (simp add: bit_or_iff bit_byte_at bit_byte_low) arith
  with n show "bit (get_uint64 (put_uint64 v)) n = bit v n" by simp
qed

lemma get_put_uint32: "get_uint32 (put_uint32 v) = v"
proof (rule bit_word_eqI)
  fix n assume "n < LENGTH(32)"
  then have n: "n < 32" by simp
  have "bit (get_uint32 (put_uint32 v)) n \<longleftrightarrow> n < 32 \<and> bit v n"
    unfolding get_uint32_def put_uint32_def
    by (simp add: bit_or_iff bit_byte_at bit_byte_low) arith
  with n show "bit (get_uint32 (put_uint32 v)) n = bit v n" by simp
qed

lemma length_put_uint32 [simp]: "length (put_uint32 v) = 4"
  by (simp add: put_uint32_def)

lemma length_put_uint64 [simp]: "length (put_uint64 v) = 8"
  by (simp add: put_uint64_def)

lemma length_bytes_of_string [simp]: "length (bytes_of_string s) = length s"
  by (simp add: bytes_of_string_def)

lemma string_of_bytes_of_string: "string_of_bytes (bytes_of_string s) = s"
  unfolding string_of_bytes_def bytes_of_string_def
  by (induction s) (simp_all add: unat_of_nat)

subsection \<open>Writing and reading one frame\<close>

lemma sendFileInfo_healthy:
  "room c = None \<Longrightarrow> sendFileInfo c fi = (None, c\<lparr>outbuf := outbuf c @ frame_bytes fi\<rparr>)"
  by (simp add: sendFileInfo_def binary_Write32_def binary_Write64_def conn_Write_def
      frame_bytes_def Let_def)

lemma ReadFull_prefix:
  "ReadFull (c\<lparr>inbuf := xs @ ys\<rparr>) (length xs) = ((xs, None), c\<lparr>inbuf := ys\<rparr>)"
  by (simp add: ReadFull_def)

lemma binary_Read32_put:
  "binary_Read32 (c\<lparr>inbuf := put_uint32 v @ ys\<rparr>) = (Inr v, c\<lparr>inbuf := ys\<rparr>)"
  using ReadFull_prefix [where c = c and xs = "put_uint32 v" and ys = ys]
  by (simp add: binary_Read32_def get_put_uint32)

lemma binary_Read64_put:
  "binary_Read64 (c\<lparr>inbuf := put_uint64 v @ ys\<rparr>) = (Inr v, c\<lparr>inbuf := ys\<rparr>)"
  using ReadFull_prefix [where c = c and xs = "put_uint64 v" and ys = ys]
  by (simp add: binary_Read64_def get_put_uint64)

lemma ReadFull_one:
  "ReadFull (c\<lparr>inbuf := b # ys\<rparr>) (Suc 0) = (([b], None), c\<lparr>inbuf := ys\<rparr>)"
  by (simp add: ReadFull_def)

lemma receiveFileInfo_frame:
  assumes "length (Filename fi) \<le> 255"
  shows "receiveFileInfo (c\<lparr>inbuf := frame_bytes fi @ rest\<rparr>) = (Inr fi, c\<lparr>inbuf := rest\<rparr>)"
proof -
  have len: "unat (of_nat (length (Filename fi)) :: 32 word) = length (Filename fi)"
    using assms by (simp add: unat_of_nat)
  have name: "ReadFull (c\<lparr>inbuf := bytes_of_string (Filename fi) @ zs\<rparr>) (length (Filename fi))
      = ((bytes_of_string (Filename fi), None), c\<lparr>inbuf := zs\<rparr>)" for zs
    using ReadFull_prefix [where c = c and xs = "bytes_of_string (Filename fi)" and ys = zs]
    by simp
  show ?thesis
    using assms
    by (simp add: receiveFileInfo_def frame_bytes_def binary_Read32_put len maxFilenameLen_def
        name binary_Read64_put ReadFull_one string_of_bytes_of_string)
qed

text \<open>
  C1. Round trip of the codec: a descriptor whose name has at most 255 bytes, with any
  size (negative ones included) and either flag, is written by \<open>sendFileInfo\<close> on a
  connection whose writes succeed, and \<open>receiveFileInfo\<close> reads the same descriptor back
  from the bytes that were written, leaving what follows them in the stream.
\<close>

theorem frame_roundtrip:
  assumes "room c = None" and "length (Filename fi) \<le> 255"
  shows "\<exists>c'. sendFileInfo c fi = (None, c') \<and>
           receiveFileInfo (r\<lparr>inbuf := drop (length (outbuf c)) (outbuf c') @ rest\<rparr>)
             = (Inr fi, r\<lparr>inbuf := rest\<rparr>)"
  using assms by (simp add: sendFileInfo_healthy receiveFileInfo_frame)

theorem frame_roundtrip_witness:
  "room conn0 = None \<and>
   length (Filename \<lparr>Filename = ''a/b.txt'', FileSize = 1000, IsDirectory = False\<rparr>) \<le> 255 \<and>
   (\<exists>c'. sendFileInfo conn0 \<lparr>Filename = ''a/b.txt'', FileSize = 1000, IsDirectory = False\<rparr>
            = (None, c') \<and>
      receiveFileInfo (conn0\<lparr>inbuf := drop (length (outbuf conn0)) (outbuf c') @ [7, 7]\<rparr>)
        = (Inr \<lparr>Filename = ''a/b.txt'', FileSize = 1000, IsDirectory = False\<rparr>,
           conn0\<lparr>inbuf := [7, 7]\<rparr>))"
  using frame_roundtrip [where c = conn0 and r = conn0 and rest = "[7, 7]"
      and fi = "\<lparr>Filename = ''a/b.txt'', FileSize = 1000, IsDirectory = False\<rparr>"]
  by (simp add: conn0_def)

text \<open>
  C4. A stream whose first four bytes decode to a name length above 255 makes
  \<open>receiveFileInfo\<close> fail with the error \<open>filename too long: N bytes\<close>, and exactly these
  four bytes have been taken from the stream: no byte of a name, size or flag is read.
\<close>

theorem oversize_name_rejected:
  assumes "4 \<le> length (inbuf c)" and "255 < unat (get_uint32 (take 4 (inbuf c)))"
  shows "receiveFileInfo c =
           (Inl (ErrorString (''filename too long: '' @
                   decimal (unat (get_uint32 (take 4 (inbuf c)))) @ '' bytes'')),
            c\<lparr>inbuf := drop 4 (inbuf c)\<rparr>)"
  using assms
  by (simp add: receiveFileInfo_def binary_Read32_def ReadFull_def maxFilenameLen_def)

theorem oversize_name_rejected_witness:
  "4 \<le> length (inbuf (conn0\<lparr>inbuf := [0, 0, 1, 0, 65, 66]\<rparr>)) \<and>
   255 < unat (get_uint32 (take 4 (inbuf (conn0\<lparr>inbuf := [0, 0, 1, 0, 65, 66]\<rparr>)))) \<and>
   receiveFileInfo (conn0\<lparr>inbuf := [0, 0, 1, 0, 65, 66]\<rparr>) =
     (Inl (ErrorString ''filename too long: 256 bytes''), conn0\<lparr>inbuf := [65, 66]\<rparr>)"
proof -
  have g: "get_uint32 [0, 0, 1, 0] = 256" by (simp add: get_uint32_def)
  have d: "decimal 256 = ''256''" by code_simp
  show ?thesis
    using oversize_name_rejected [of "conn0\<lparr>inbuf := [0, 0, 1, 0, 65, 66]\<rparr>"]
    by (simp add: g d)
qed

section \<open>Properties of the receiver\<close>

subsection \<open>Failures of the frame decoder\<close>

lemma decimal_digits: "set (decimal n) \<subseteq> set ''0123456789''"
proof (induction n rule: decimal.induct)
  case (1 n)
  have d: "''0123456789'' ! k \<in> set ''0123456789''" if "k < 10" for k
    using that nth_mem [of k "''0123456789''"] by simp
  show ?case
  proof (cases "n < 10")
    case True
    then show ?thesis using d [of n] by (subst decimal.simps) simp
  next
    case False
    then have "set (decimal (n div 10)) \<subseteq> set ''0123456789''" using 1 by simp
    moreover have "''0123456789'' ! (n mod 10) \<in> set ''0123456789''" by (rule d) simp
    ultimately show ?thesis using False by (subst decimal.simps) simp
  qed
qed

lemma contains_subset: "contains s sub \<Longrightarrow> set sub \<subseteq> set s"
proof (induction s)
  case Nil then show ?case by simp
next
  case (Cons c cs)
  from Cons.prems have "take (length sub) (c # cs) = sub \<or> contains cs sub" by simp
  then show ?case
  proof
    assume "take (length sub) (c # cs) = sub"
    then have "set sub = set (take (length sub) (c # cs))" by simp
    also have "\<dots> \<subseteq> set (c # cs)" by (rule set_take_subset)
    finally show ?thesis .
  next
    assume "contains cs sub"
    then show ?thesis using Cons.IH by auto
  qed
qed

lemma decimal_no_letter:
  assumes "c \<notin> set ''0123456789''"
  shows "c \<notin> set (decimal n)"
  using assms decimal_digits [of n] by blast

lemma contains_char: "contains s sub \<Longrightarrow> c \<in> set sub \<Longrightarrow> c \<in> set s"
  using contains_subset by blast

lemma too_long_not_normal:
  "\<not> normal_termination (ErrorString (''filename too long: '' @ decimal n @ '' bytes''))"
proof -
  define m where "m = ''filename too long: '' @ decimal n @ '' bytes''"
  have c: "CHR ''c'' \<notin> set m"
    using decimal_no_letter [of "CHR ''c''" n] by (simp add: m_def)
  have r: "CHR ''r'' \<notin> set m"
    using decimal_no_letter [of "CHR ''r''" n] by (simp add: m_def)
  have u: "CHR ''u'' \<notin> set m"
    using decimal_no_letter [of "CHR ''u''" n] by (simp add: m_def)
  have "\<not> contains m ''closed''"
    using contains_char [of m "''closed''" "CHR ''c''"] c by fastforce
  moreover have "\<not> contains m ''reset''"
    using contains_char [of m "''reset''" "CHR ''r''"] r by fastforce
  moreover have "\<not> contains m ''unexpected EOF''"
    using contains_char [of m "''unexpected EOF''" "CHR ''u''"] u by fastforce
  ultimately show ?thesis by (simp add: normal_termination_def m_def)
qed

lemma normal_EOF: "normal_termination EOF"
  by (simp add: normal_termination_def)

lemma normal_ErrUnexpectedEOF: "normal_termination ErrUnexpectedEOF"
  by (simp add: normal_termination_def)

lemma receiveFileInfo_errors:
  assumes "receiveFileInfo c = (Inl err, c')"
  shows "err = inerr c \<or> (inerr c = EOF \<and> err = ErrUnexpectedEOF) \<or>
         (4 \<le> length (inbuf c) \<and> 255 < unat (get_uint32 (take 4 (inbuf c))) \<and>
          err = ErrorString (''filename too long: '' @
                  decimal (unat (get_uint32 (take 4 (inbuf c)))) @ '' bytes''))"
  using assms
  by (auto simp: receiveFileInfo_def binary_Read32_def binary_Read64_def ReadFull_def
      maxFilenameLen_def split: if_splits prod.splits sum.splits option.splits)

lemma receiveFileInfo_oversize:
  assumes "4 \<le> length (inbuf c)" and "255 < unat (get_uint32 (take 4 (inbuf c)))"
  shows "receiveFileInfo c =
           (Inl (ErrorString (''filename too long: '' @
                   decimal (unat (get_uint32 (take 4 (inbuf c)))) @ '' bytes'')),
            c\<lparr>inbuf := drop 4 (inbuf c)\<rparr>)"
  using assms
  by (simp add: receiveFileInfo_def binary_Read32_def ReadFull_def maxFilenameLen_def)

lemma receiveFileRaw_decode_failure:
  assumes "receiveFileInfo (wconn w) = (Inl err, c')"
  shows "receiveFileRaw h now w =
           Some (if normal_termination err then None
                 else Some (WrapError ''failed to receive file info'' err), w\<lparr>wconn := c'\<rparr>)"
  by (subst receiveFileRaw.simps) (simp add: assms)

text \<open>
  C3 (as amended). When the frame decoder fails at the top of the loop, \<open>receiveFileRaw\<close>
  returns at once: with success when the error is \<open>EOF\<close> or its message contains
  \<open>closed\<close>, \<open>reset\<close> or \<open>unexpected EOF\<close>, and otherwise with the error wrapped as
  \<open>failed to receive file info\<close>. On a stream that ends with a clean end-of-stream the
  failure counts as the normal end of the connection wherever the stream stops, before the
  length field or in the middle of a frame; the only failure that is returned as an error
  there is the rejection of a name length above 255.
\<close>

theorem decode_failure_outcome:
  assumes "receiveFileInfo (wconn w) = (Inl err, c')"
  shows "receiveFileRaw h now w =
           Some (if normal_termination err then None
                 else Some (WrapError ''failed to receive file info'' err), w\<lparr>wconn := c'\<rparr>) \<and>
         (inerr (wconn w) = EOF \<longrightarrow>
            normal_termination err =
              (\<not> (4 \<le> length (inbuf (wconn w)) \<and>
                   255 < unat (get_uint32 (take 4 (inbuf (wconn w)))))))"
proof (intro conjI impI)
  show "receiveFileRaw h now w =
           Some (if normal_termination err then None
                 else Some (WrapError ''failed to receive file info'' err), w\<lparr>wconn := c'\<rparr>)"
    using assms by (rule receiveFileRaw_decode_failure)
next
  assume eof: "inerr (wconn w) = EOF"
  let ?over = "4 \<le> length (inbuf (wconn w)) \<and>
                   255 < unat (get_uint32 (take 4 (inbuf (wconn w))))"
  show "normal_termination err = (\<not> ?over)"
  proof (cases ?over)
    case True
    then have "err = ErrorString (''filename too long: '' @
                   decimal (unat (get_uint32 (take 4 (inbuf (wconn w))))) @ '' bytes'')"
      using receiveFileInfo_oversize [of "wconn w"] assms by simp
    then show ?thesis using True too_long_not_normal by simp
  next
    case False
    then have "err = EOF \<or> err = ErrUnexpectedEOF"
      using receiveFileInfo_errors [OF assms] eof by auto
    then show ?thesis using False normal_EOF normal_ErrUnexpectedEOF by auto
  qed
qed

theorem decode_failure_outcome_witness:
  "receiveFileInfo (wconn (world0\<lparr>wconn := conn0\<lparr>inbuf := [0, 0, 0, 3, 97]\<rparr>\<rparr>))
     = (Inl ErrUnexpectedEOF, conn0) \<and>
   inerr (wconn (world0\<lparr>wconn := conn0\<lparr>inbuf := [0, 0, 0, 3, 97]\<rparr>\<rparr>)) = EOF \<and>
   receiveFileRaw Unix clock0 (world0\<lparr>wconn := conn0\<lparr>inbuf := [0, 0, 0, 3, 97]\<rparr>\<rparr>)
     = Some (None, world0) \<and>
   normal_termination ErrUnexpectedEOF"
proof -
  have g: "get_uint32 [0, 0, 0, 3] = 3" by (simp add: get_uint32_def)
  have r: "receiveFileInfo (wconn (world0\<lparr>wconn := conn0\<lparr>inbuf := [0, 0, 0, 3, 97]\<rparr>\<rparr>))
     = (Inl ErrUnexpectedEOF, conn0)"
    by (simp add: receiveFileInfo_def binary_Read32_def ReadFull_def maxFilenameLen_def g
        conn0_def)
  show ?thesis
    using decode_failure_outcome [OF r, of Unix clock0] r
    by (simp add: g world0_def conn0_def)
qed

text \<open>
  The claim C3 as it was stated fails: a stream that ends after two of the four bytes of
  the length field makes \<open>receiveFileRaw\<close> return success, not an error.
\<close>

theorem midframe_eof_returns_success:
  "receiveFileRaw Unix clock0 (world0\<lparr>wconn := conn0\<lparr>inbuf := [0, 0]\<rparr>\<rparr>) = Some (None, world0)"
proof -
  have r: "receiveFileInfo (wconn (world0\<lparr>wconn := conn0\<lparr>inbuf := [0, 0]\<rparr>\<rparr>))
     = (Inl ErrUnexpectedEOF, conn0)"
    by (simp add: receiveFileInfo_def binary_Read32_def ReadFull_def conn0_def)
  show ?thesis
    using receiveFileRaw_decode_failure [OF r, of Unix clock0]
    by (simp add: normal_ErrUnexpectedEOF world0_def)
qed

subsection \<open>The content loop at the end of the stream\<close>

lemma receiveContent_spin_aux:
  assumes "receiveContent h now p fileSize tot w = Some r"
  shows "\<not> (inbuf (wconn w) = [] \<and> inerr (wconn w) = EOF \<and> tot < fileSize)"
proof (rule receiveContent.raw_induct
    [where P = "\<lambda>h now p fileSize tot w r.
        \<not> (inbuf (wconn w) = [] \<and> inerr (wconn w) = EOF \<and> tot < fileSize)", OF _ assms], goal_cases)
  case (1 rc h now p fileSize tot w r)
  note ih = 1(1) and step = 1(2)
  show ?case
  proof
    assume a: "inbuf (wconn w) = [] \<and> inerr (wconn w) = EOF \<and> tot < fileSize"
    then have pos: "0 < (if fileSize - tot < int chunkSize then nat (fileSize - tot) else chunkSize)"
      by (simp add: chunkSize_def)
    have rf: "ReadFull (wconn w) (if fileSize - tot < int chunkSize then nat (fileSize - tot) else chunkSize)
          = (([], Some EOF), wconn w)"
      using a pos by (simp add: ReadFull_def)
    obtain fs' where fw: "file_Write h (disk w) p [] = (None, fs')"
      by (cases "free (disk w)") (simp_all add: file_Write_def Let_def)
    let ?w' = "printProgress now (set_current tot (w\<lparr>wconn := wconn w, disk := fs'\<rparr>))"
    have c: "inbuf (wconn ?w') = [] \<and> inerr (wconn ?w') = EOF"
      using a by (simp add: printProgress_def set_current_def Let_def)
    from step a rf fw have "rc h now p fileSize tot ?w' = Some r"
      by (simp add: Let_def)
    from ih [OF this] c a show False by simp
  qed
qed

lemma receiveContent_spin:
  assumes "inbuf (wconn w) = []" and "inerr (wconn w) = EOF" and "tot < fileSize"
  shows "receiveContent h now p fileSize tot w = None"
proof (cases "receiveContent h now p fileSize tot w")
  case None then show ?thesis .
next
  case (Some r)
  from receiveContent_spin_aux [OF Some] assms show ?thesis by simp
qed


lemma wconn_set_current [simp]: "wconn (set_current v w) = wconn w"
  by (simp add: set_current_def)

lemma disk_set_current [simp]: "disk (set_current v w) = disk w"
  by (simp add: set_current_def)

lemma wconn_printProgress [simp]: "wconn (printProgress now w) = wconn w"
  by (simp add: printProgress_def Let_def)

lemma disk_printProgress [simp]: "disk (printProgress now w) = disk w"
  by (simp add: printProgress_def Let_def)

lemma wconn_Finalize [simp]: "wconn (Finalize now w) = wconn w"
  by (simp add: Finalize_def Let_def)

lemma disk_Finalize [simp]: "disk (Finalize now w) = disk w"
  by (simp add: Finalize_def Let_def)

lemma wconn_NewProgressWriter [simp]: "wconn (NewProgressWriter now t n w) = wconn w"
  by (simp add: NewProgressWriter_def)

lemma disk_NewProgressWriter [simp]: "disk (NewProgressWriter now t n w) = disk w"
  by (simp add: NewProgressWriter_def)

lemma free_file_Write:
  "free fs = None \<Longrightarrow> \<exists>fs'. file_Write h fs p bs = (None, fs') \<and> free fs' = None"
  by (simp add: file_Write_def Let_def)

lemma receiveContent_truncated:
  assumes "inerr (wconn w) = EOF"
    and "int (length (inbuf (wconn w))) < fileSize - tot"
    and "free (disk w) = None"
  shows "receiveContent h now p fileSize tot w = None"
  using assms
proof (induction "length (inbuf (wconn w))" arbitrary: w tot rule: less_induct)
  case less
  define readSize where
    "readSize = (if fileSize - tot < int chunkSize then nat (fileSize - tot) else chunkSize)"
  have lt: "tot < fileSize" using less.prems(2) by linarith
  have pos: "0 < readSize" using lt by (simp add: readSize_def chunkSize_def)
  have le: "int readSize \<le> fileSize - tot" using lt by (simp add: readSize_def)
  show ?case
  proof (cases "readSize \<le> length (inbuf (wconn w))")
    case True
    obtain fs' where fw: "file_Write h (disk w) p (take readSize (inbuf (wconn w))) = (None, fs')"
      and fr: "free fs' = None"
      using free_file_Write [OF less.prems(3)] by blast
    let ?w' = "printProgress now (set_current (tot + int readSize)
        (w\<lparr>wconn := (wconn w)\<lparr>inbuf := drop readSize (inbuf (wconn w))\<rparr>, disk := fs'\<rparr>))"
    have "receiveContent h now p fileSize (tot + int readSize) ?w' = None"
      using less.prems True pos fr
      by (intro less.hyps) simp_all
    moreover have "\<not> fileSize \<le> tot + int readSize"
      using less.prems(2) True by linarith
    moreover have "length (take readSize (inbuf (wconn w))) = readSize"
      using True by simp
    ultimately show ?thesis
      using lt True fw
      by (subst receiveContent.simps)
        (simp add: readSize_def [symmetric] ReadFull_def Let_def del: length_take)
  next
    case False
    obtain fs' where fw: "file_Write h (disk w) p (inbuf (wconn w)) = (None, fs')"
      using free_file_Write [OF less.prems(3)] by blast
    let ?w' = "printProgress now (set_current (tot + int (length (inbuf (wconn w))))
        (w\<lparr>wconn := (wconn w)\<lparr>inbuf := []\<rparr>, disk := fs'\<rparr>))"
    have nf: "\<not> fileSize \<le> tot + int (length (inbuf (wconn w)))"
      using less.prems(2) by linarith
    then have "receiveContent h now p fileSize (tot + int (length (inbuf (wconn w)))) ?w' = None"
      using less.prems(1) by (intro receiveContent_spin) simp_all
    then show ?thesis
      using lt False fw nf less.prems(1)
      by (subst receiveContent.simps) (simp add: readSize_def [symmetric] ReadFull_def Let_def)
  qed
qed

subsection \<open>One round of the receiver loop\<close>

lemma receiveFileRaw_dir_frame:
  assumes "receiveFileInfo (wconn w) = (Inr fi, c')" and "IsDirectory fi"
    and "MkdirAll h (disk w) receiveDir = (None, fs1)"
    and "MkdirAll h fs1 (Join h receiveDir (FromSlash h (Filename fi))) = (None, fs2)"
  shows "receiveFileRaw h now w = receiveFileRaw h now (w\<lparr>wconn := c', disk := fs2\<rparr>)"
  by (subst receiveFileRaw.simps) (simp add: assms Let_def)

lemma receiveFileRaw_file_frame:
  assumes "receiveFileInfo (wconn w) = (Inr fi, c')" and "\<not> IsDirectory fi"
    and "MkdirAll h (disk w) receiveDir = (None, fs1)"
    and "(if Dir h (Join h receiveDir (FromSlash h (Filename fi))) \<noteq> ''.'' \<and>
             Dir h (Join h receiveDir (FromSlash h (Filename fi))) \<noteq> receiveDir
          then MkdirAll h fs1 (Dir h (Join h receiveDir (FromSlash h (Filename fi))))
          else (None, fs1)) = (None, fs2)"
    and "Create h fs2 (Join h receiveDir (FromSlash h (Filename fi))) = Inr fs3"
  shows "receiveFileRaw h now w =
           (case receiveContent h now (Join h receiveDir (FromSlash h (Filename fi)))
                   (sint (FileSize fi)) 0
                   (NewProgressWriter now (sint (FileSize fi)) (Base h (Filename fi))
                      (w\<lparr>wconn := c', disk := fs3\<rparr>)) of
              None \<Rightarrow> None
            | Some (Some e, w2) \<Rightarrow> Some (Some e, w2)
            | Some (None, w2) \<Rightarrow>
                receiveFileRaw h now
                  (Finalize now (printProgress now (set_current (sint (FileSize fi)) w2))))"
  apply (subst receiveFileRaw.simps)
  apply (simp only: assms Let_def prod.case sum.case option.case if_False)
  done

text \<open>
  C2. The claim asks for an error when the stream ends before the declared number of
  content bytes has arrived. The code does not return at all when the stream ends with a
  clean end-of-stream: a frame declaring 1000 bytes followed by 3 bytes and the end of the
  stream leaves \<open>receiveFileRaw\<close> in its content loop for ever (lemma
  \<open>receiveContent_truncated\<close> shows this for every declared size and every shorter
  content).
\<close>

theorem truncated_content_never_returns:
  "receiveFileRaw Unix clock0
     (world0\<lparr>wconn := conn0\<lparr>inbuf :=
        frame_bytes \<lparr>Filename = ''a'', FileSize = 1000, IsDirectory = False\<rparr> @ [1, 2, 3]\<rparr>\<rparr>)
   = None"
proof -
  let ?fi = "\<lparr>Filename = ''a'', FileSize = 1000, IsDirectory = False\<rparr>"
  let ?w = "world0\<lparr>wconn := conn0\<lparr>inbuf := frame_bytes ?fi @ [1, 2, 3]\<rparr>\<rparr>"
  let ?fs1 = "\<lparr>nodes = [''received'' \<mapsto> FDir], free = None\<rparr>"
  let ?fs3 = "\<lparr>nodes = [''received'' \<mapsto> FDir, ''received/a'' \<mapsto> FFile []], free = None\<rparr>"
  have j: "Join Unix receiveDir (FromSlash Unix (Filename ?fi)) = ''received/a''" by code_simp
  have d: "Dir Unix ''received/a'' = receiveDir" by code_simp
  have r: "receiveFileInfo (wconn ?w) = (Inr ?fi, conn0\<lparr>inbuf := [1, 2, 3]\<rparr>)"
    using receiveFileInfo_frame [where fi = ?fi and c = conn0 and rest = "[1, 2, 3]"] by simp
  have m: "MkdirAll Unix (disk ?w) receiveDir = (None, ?fs1)"
    by (simp add: world0_def MkdirAll_def receiveDir_def Clean_def is_rooted_def clean_elems_def
        clean_step_def Stat_def is_anchor_def)
  have p: "(if Dir Unix (Join Unix receiveDir (FromSlash Unix (Filename ?fi))) \<noteq> ''.'' \<and>
             Dir Unix (Join Unix receiveDir (FromSlash Unix (Filename ?fi))) \<noteq> receiveDir
          then MkdirAll Unix ?fs1 (Dir Unix (Join Unix receiveDir (FromSlash Unix (Filename ?fi))))
          else (None, ?fs1)) = (None, ?fs1)"
    by (simp only: j d) simp
  have c: "Create Unix ?fs1 (Join Unix receiveDir (FromSlash Unix (Filename ?fi))) = Inr ?fs3"
    by (simp only: j) (simp add: Create_def Dir_def Clean_def is_rooted_def clean_elems_def
        clean_step_def Stat_def is_anchor_def)
  have n: "\<not> IsDirectory ?fi" by simp
  have s: "sint (FileSize ?fi) = 1000" by simp
  have "receiveContent Unix clock0 (Join Unix receiveDir (FromSlash Unix (Filename ?fi)))
          (sint (FileSize ?fi)) 0
          (NewProgressWriter clock0 (sint (FileSize ?fi)) (Base Unix (Filename ?fi))
             (?w\<lparr>wconn := conn0\<lparr>inbuf := [1, 2, 3]\<rparr>, disk := ?fs3\<rparr>)) = None"
    by (rule receiveContent_truncated) (simp_all add: conn0_def)
  then show ?thesis
    by (simp only: receiveFileRaw_file_frame [OF r n m p c] option.case)
qed

lemma receiveContent_nothing:
  "\<not> tot < fileSize \<Longrightarrow> receiveContent h now p fileSize tot w = Some (None, w)"
  by (subst receiveContent.simps) simp

lemma Create_empty:
  "Create h fs path = Inr fs' \<Longrightarrow> nodes fs' (Clean h path) = Some (FFile [])"
  by (auto simp: Create_def split: option.splits fnode.splits)

text \<open>
  C9. A negative declared size is accepted. The decoder returns the descriptor as it is;
  for a file descriptor with a negative size, when the directories and the file can be
  created, the receiver creates the empty file, takes no content byte from the stream
  (the bytes after the frame are all still there), and goes on with the next round of its
  loop from that state, without an error. The result of the call is that of the next
  round: when the next descriptor cannot be decoded from the bytes after the frame, the
  call returns what \<open>receiveFileRaw\<close> returns for that failure, in the state that has
  the new empty file on the disk; in particular, when the stream ends cleanly right after
  the frame, the call returns success in that state.
\<close>

theorem negative_size_accepted:
  fixes h now w fi rest fs1 fs2 fs3
  defines "fullPath \<equiv> Join h receiveDir (FromSlash h (Filename fi))"
  defines "w' \<equiv> Finalize now (printProgress now (set_current (sint (FileSize fi))
                  (NewProgressWriter now (sint (FileSize fi)) (Base h (Filename fi))
                     (w\<lparr>wconn := (wconn w)\<lparr>inbuf := rest\<rparr>, disk := fs3\<rparr>))))"
  assumes "inbuf (wconn w) = frame_bytes fi @ rest"
    and "length (Filename fi) \<le> 255" and "\<not> IsDirectory fi" and "sint (FileSize fi) < 0"
    and "MkdirAll h (disk w) receiveDir = (None, fs1)"
    and "(if Dir h fullPath \<noteq> ''.'' \<and> Dir h fullPath \<noteq> receiveDir
          then MkdirAll h fs1 (Dir h fullPath) else (None, fs1)) = (None, fs2)"
    and "Create h fs2 fullPath = Inr fs3"
  shows "receiveFileInfo (wconn w) = (Inr fi, (wconn w)\<lparr>inbuf := rest\<rparr>) \<and>
         receiveFileRaw h now w = receiveFileRaw h now w' \<and>
         inbuf (wconn w') = rest \<and> disk w' = fs3 \<and>
         nodes fs3 (Clean h fullPath) = Some (FFile []) \<and>
         (\<forall>err c'. receiveFileInfo ((wconn w)\<lparr>inbuf := rest\<rparr>) = (Inl err, c') \<longrightarrow>
            receiveFileRaw h now w =
              Some (if normal_termination err then None
                    else Some (WrapError ''failed to receive file info'' err),
                    w'\<lparr>wconn := c'\<rparr>)) \<and>
         (rest = [] \<and> inerr (wconn w) = EOF \<longrightarrow> receiveFileRaw h now w = Some (None, w'))"
proof -
  have "receiveFileInfo ((wconn w)\<lparr>inbuf := frame_bytes fi @ rest\<rparr>)
          = (Inr fi, (wconn w)\<lparr>inbuf := rest\<rparr>)"
    using assms(4) by (rule receiveFileInfo_frame)
  moreover have "(wconn w)\<lparr>inbuf := frame_bytes fi @ rest\<rparr> = wconn w"
    using assms(3) by simp
  ultimately have r: "receiveFileInfo (wconn w) = (Inr fi, (wconn w)\<lparr>inbuf := rest\<rparr>)"
    by simp
  have loop: "receiveContent h now fullPath (sint (FileSize fi)) 0 w1 = Some (None, w1)" for w1
    using assms(6) by (intro receiveContent_nothing) simp
  have eq: "receiveFileRaw h now w = receiveFileRaw h now w'"
    using receiveFileRaw_file_frame [OF r assms(5) assms(7)
        assms(8) [unfolded fullPath_def] assms(9) [unfolded fullPath_def], of now]
    by (simp add: loop [unfolded fullPath_def] w'_def)
  have created: "nodes fs3 (Clean h fullPath) = Some (FFile [])"
    using assms(9) by (rule Create_empty)
  have cw: "wconn w' = (wconn w)\<lparr>inbuf := rest\<rparr>" and dw: "disk w' = fs3"
    by (simp_all add: w'_def)
  have next_fails: "receiveFileRaw h now w =
      Some (if normal_termination err then None
            else Some (WrapError ''failed to receive file info'' err), w'\<lparr>wconn := c'\<rparr>)"
    if "receiveFileInfo ((wconn w)\<lparr>inbuf := rest\<rparr>) = (Inl err, c')" for err c'
  proof -
    from that have "receiveFileInfo (wconn w') = (Inl err, c')" by (simp only: cw)
    then have "receiveFileRaw h now w' =
      Some (if normal_termination err then None
            else Some (WrapError ''failed to receive file info'' err), w'\<lparr>wconn := c'\<rparr>)"
      by (rule receiveFileRaw_decode_failure)
    with eq show ?thesis by simp
  qed
  have at_end: "receiveFileRaw h now w = Some (None, w')"
    if "rest = []" and "inerr (wconn w) = EOF"
  proof -
    have "receiveFileInfo ((wconn w)\<lparr>inbuf := rest\<rparr>) = (Inl EOF, (wconn w)\<lparr>inbuf := rest\<rparr>)"
      using that by (simp add: receiveFileInfo_def binary_Read32_def ReadFull_def)
    from next_fails [OF this] have "receiveFileRaw h now w
        = Some (None, w'\<lparr>wconn := (wconn w)\<lparr>inbuf := rest\<rparr>\<rparr>)"
      by (simp add: normal_EOF)
    moreover have "w'\<lparr>wconn := (wconn w)\<lparr>inbuf := rest\<rparr>\<rparr> = w'"
      using cw by simp
    ultimately show ?thesis by simp
  qed
  from r eq cw dw created next_fails at_end show ?thesis by simp
qed

theorem negative_size_accepted_witness:
  "sint (FileSize \<lparr>Filename = ''a/b'', FileSize = - 5, IsDirectory = False\<rparr>) < 0 \<and>
   receiveFileRaw Unix clock0
     (world0\<lparr>wconn := conn0\<lparr>inbuf :=
        frame_bytes \<lparr>Filename = ''a/b'', FileSize = - 5, IsDirectory = False\<rparr> @ [1, 2, 3]\<rparr>\<rparr>)
   = Some (None,
       (Finalize clock0 (printProgress clock0 (set_current (- 5)
          (NewProgressWriter clock0 (- 5) ''b''
             (world0\<lparr>wconn := conn0\<lparr>inbuf := [1, 2, 3]\<rparr>,
                disk := \<lparr>nodes = [''received'' \<mapsto> FDir, ''received/a'' \<mapsto> FDir,
                                  ''received/a/b'' \<mapsto> FFile []], free = None\<rparr>\<rparr>)))))
       \<lparr>wconn := conn0\<rparr>) \<and>
   map_option (\<lambda>(e, w1). (e, nodes (disk w1) ''received/a/b'', inbuf (wconn w1)))
     (receiveFileRaw Unix clock0
       (world0\<lparr>wconn := conn0\<lparr>inbuf :=
          frame_bytes \<lparr>Filename = ''a/b'', FileSize = - 5, IsDirectory = False\<rparr> @ [1, 2, 3]\<rparr>\<rparr>))
   = Some (None, Some (FFile []), [])"
proof -
  let ?fi = "\<lparr>Filename = ''a/b'', FileSize = - 5, IsDirectory = False\<rparr>"
  let ?w = "world0\<lparr>wconn := conn0\<lparr>inbuf := frame_bytes ?fi @ [1, 2, 3]\<rparr>\<rparr>"
  let ?fs1 = "\<lparr>nodes = [''received'' \<mapsto> FDir], free = None\<rparr>"
  let ?fs2 = "\<lparr>nodes = [''received'' \<mapsto> FDir, ''received/a'' \<mapsto> FDir], free = None\<rparr>"
  let ?fs3 = "\<lparr>nodes = [''received'' \<mapsto> FDir, ''received/a'' \<mapsto> FDir,
                        ''received/a/b'' \<mapsto> FFile []], free = None\<rparr>"
  have j: "Join Unix receiveDir (FromSlash Unix (Filename ?fi)) = ''received/a/b''" by code_simp
  have d: "Dir Unix ''received/a/b'' = ''received/a''" by code_simp
  have b: "Base Unix (Filename ?fi) = ''b''" by code_simp
  have s: "sint (FileSize ?fi) = - 5" by simp
  have i: "inbuf (wconn ?w) = frame_bytes ?fi @ [1, 2, 3]" by simp
  have l: "length (Filename ?fi) \<le> 255" by simp
  have n: "\<not> IsDirectory ?fi" by simp
  have neg: "sint (FileSize ?fi) < 0" by simp
  have m: "MkdirAll Unix (disk ?w) receiveDir = (None, ?fs1)"
    by (simp add: world0_def MkdirAll_def receiveDir_def Clean_def is_rooted_def clean_elems_def
        clean_step_def Stat_def is_anchor_def)
  have p: "(if Dir Unix (Join Unix receiveDir (FromSlash Unix (Filename ?fi))) \<noteq> ''.'' \<and>
             Dir Unix (Join Unix receiveDir (FromSlash Unix (Filename ?fi))) \<noteq> receiveDir
          then MkdirAll Unix ?fs1 (Dir Unix (Join Unix receiveDir (FromSlash Unix (Filename ?fi))))
          else (None, ?fs1)) = (None, ?fs2)"
    by (simp only: j d) (simp add: MkdirAll_def receiveDir_def Clean_def is_rooted_def
        clean_elems_def clean_step_def Stat_def is_anchor_def)
  have c: "Create Unix ?fs2 (Join Unix receiveDir (FromSlash Unix (Filename ?fi))) = Inr ?fs3"
    by (simp only: j) (simp add: Create_def Dir_def Clean_def is_rooted_def clean_elems_def
        clean_step_def Stat_def is_anchor_def)
  have rf: "receiveFileInfo ((wconn ?w)\<lparr>inbuf := [1, 2, 3]\<rparr>) = (Inl ErrUnexpectedEOF, conn0)"
    by (simp add: receiveFileInfo_def binary_Read32_def ReadFull_def conn0_def)
  show ?thesis
    using negative_size_accepted [OF i l n neg m p c, of clock0, THEN conjunct2,
        THEN conjunct2, THEN conjunct2, THEN conjunct2, THEN conjunct2, THEN conjunct1,
        rule_format, OF rf]
    by (simp only: b s normal_ErrUnexpectedEOF if_True) (simp add: conn0_def)
qed

lemma receiveContent_one_chunk:
  assumes "tot < fileSize" and "fileSize - tot < int chunkSize"
    and "nat (fileSize - tot) \<le> length (inbuf (wconn w))"
    and "file_Write h (disk w) p (take (nat (fileSize - tot)) (inbuf (wconn w))) = (None, fs')"
  shows "receiveContent h now p fileSize tot w =
           Some (None, printProgress now (set_current fileSize
             (w\<lparr>wconn := (wconn w)\<lparr>inbuf := drop (nat (fileSize - tot)) (inbuf (wconn w))\<rparr>,
                disk := fs'\<rparr>)))"
proof -
  have "length (take (nat (fileSize - tot)) (inbuf (wconn w))) = nat (fileSize - tot)"
    using assms(3) by simp
  then show ?thesis
    using assms
    by (subst receiveContent.simps) (simp add: ReadFull_def Let_def del: length_take)
qed

text \<open>
  C10. The encoder does not enforce the cap on the name. For a name of more than 255
  bytes (within the range of the 32-bit length field) \<open>sendFileInfo\<close> succeeds on a
  connection whose writes succeed and writes the whole frame, with the true length in the
  length field; the cap is enforced only when \<open>receiveFileInfo\<close> reads that frame and
  rejects it.
\<close>

theorem encoder_accepts_oversize_name:
  assumes "room c = None" and "255 < length (Filename fi)" and "length (Filename fi) < 2 ^ 32"
  shows "sendFileInfo c fi = (None, c\<lparr>outbuf := outbuf c @ frame_bytes fi\<rparr>) \<and>
         unat (get_uint32 (take 4 (frame_bytes fi))) = length (Filename fi) \<and>
         receiveFileInfo (r\<lparr>inbuf := frame_bytes fi @ rest\<rparr>) =
           (Inl (ErrorString (''filename too long: '' @ decimal (length (Filename fi)) @ '' bytes'')),
            r\<lparr>inbuf := drop 4 (frame_bytes fi @ rest)\<rparr>)"
proof -
  have t: "take 4 (frame_bytes fi @ zs) = put_uint32 (of_nat (length (Filename fi)))" for zs
    by (simp add: frame_bytes_def)
  have u: "unat (of_nat (length (Filename fi)) :: 32 word) = length (Filename fi)"
    using assms(3) by (simp add: unat_of_nat)
  have g: "unat (get_uint32 (take 4 (frame_bytes fi @ zs))) = length (Filename fi)" for zs
    by (simp only: t get_put_uint32 u)
  have g': "unat (get_uint32 (take 4 (frame_bytes fi))) = length (Filename fi)"
    using g [of "[]"] by simp
  have "4 \<le> length (inbuf (r\<lparr>inbuf := frame_bytes fi @ rest\<rparr>))"
    by (simp add: frame_bytes_def)
  moreover have "255 < unat (get_uint32 (take 4 (inbuf (r\<lparr>inbuf := frame_bytes fi @ rest\<rparr>))))"
    using g assms(2) by simp
  ultimately have "receiveFileInfo (r\<lparr>inbuf := frame_bytes fi @ rest\<rparr>) =
      (Inl (ErrorString (''filename too long: '' @
         decimal (unat (get_uint32 (take 4 (inbuf (r\<lparr>inbuf := frame_bytes fi @ rest\<rparr>))))) @ '' bytes'')),
       r\<lparr>inbuf := frame_bytes fi @ rest\<rparr>\<lparr>inbuf := drop 4 (inbuf (r\<lparr>inbuf := frame_bytes fi @ rest\<rparr>))\<rparr>)"
    by (rule receiveFileInfo_oversize)
  then show ?thesis
    using assms(1) g g' by (simp add: sendFileInfo_healthy)
qed


theorem encoder_accepts_oversize_name_witness:
  "255 < length (Filename \<lparr>Filename = replicate 256 CHR ''a'', FileSize = 1, IsDirectory = False\<rparr>) \<and>
   sendFileInfo conn0 \<lparr>Filename = replicate 256 CHR ''a'', FileSize = 1, IsDirectory = False\<rparr>
     = (None, conn0\<lparr>outbuf :=
          frame_bytes \<lparr>Filename = replicate 256 CHR ''a'', FileSize = 1, IsDirectory = False\<rparr>\<rparr>) \<and>
   unat (get_uint32 (take 4
      (frame_bytes \<lparr>Filename = replicate 256 CHR ''a'', FileSize = 1, IsDirectory = False\<rparr>))) = 256 \<and>
   fst (receiveFileInfo (conn0\<lparr>inbuf :=
      frame_bytes \<lparr>Filename = replicate 256 CHR ''a'', FileSize = 1, IsDirectory = False\<rparr> @ []\<rparr>))
     = Inl (ErrorString ''filename too long: 256 bytes'')"
proof -
  have d: "decimal 256 = ''256''" by code_simp
  show ?thesis
    using encoder_accepts_oversize_name [where c = conn0 and r = conn0 and rest = "[]"
        and fi = "\<lparr>Filename = replicate 256 CHR ''a'', FileSize = 1, IsDirectory = False\<rparr>"]
    by (simp add: d conn0_def)
qed

lemma receiveFileRaw_at_EOF:
  assumes "inbuf (wconn w) = []" and "inerr (wconn w) = EOF"
  shows "receiveFileRaw h now w = Some (None, w)"
proof -
  have "receiveFileInfo (wconn w) = (Inl EOF, wconn w)"
    using assms by (simp add: receiveFileInfo_def binary_Read32_def ReadFull_def)
  from receiveFileRaw_decode_failure [OF this] show ?thesis
    by (simp add: normal_EOF)
qed

text \<open>
  C5. The receiver does not keep its files within the receive root. The name \<open>../evil\<close>
  has a \<open>..\<close> segment and is not rejected: joined under \<open>received\<close> it becomes the path
  \<open>evil\<close>, which is not within \<open>received\<close>, and the receiver creates that file there,
  next to the receive root, and fills it with the content from the stream.
\<close>

theorem receive_root_not_enforced:
  "\<exists>fi w'. ''..'' \<in> set (splitBy (IsPathSeparator Unix) (Filename fi)) \<and>
      \<not> IsDirectory fi \<and>
      Join Unix receiveDir (FromSlash Unix (Filename fi)) = ''evil'' \<and>
      \<not> within_root Unix receiveDir ''evil'' \<and>
      receiveFileRaw Unix clock0 (world0\<lparr>wconn := conn0\<lparr>inbuf := frame_bytes fi @ [1, 2, 3]\<rparr>\<rparr>)
        = Some (None, w') \<and>
      nodes (disk world0) ''evil'' = None \<and>
      nodes (disk w') ''evil'' = Some (FFile [1, 2, 3])"
proof -
  let ?fi = "\<lparr>Filename = ''../evil'', FileSize = 3, IsDirectory = False\<rparr>"
  let ?w = "world0\<lparr>wconn := conn0\<lparr>inbuf := frame_bytes ?fi @ [1, 2, 3]\<rparr>\<rparr>"
  let ?fs1 = "\<lparr>nodes = [''received'' \<mapsto> FDir], free = None\<rparr>"
  let ?fs3 = "\<lparr>nodes = [''received'' \<mapsto> FDir, ''evil'' \<mapsto> FFile []], free = None\<rparr>"
  let ?fs4 = "\<lparr>nodes = [''received'' \<mapsto> FDir, ''evil'' \<mapsto> FFile [1, 2, 3]], free = None\<rparr>"
  let ?w1 = "NewProgressWriter clock0 (sint (FileSize ?fi)) (Base Unix (Filename ?fi))
               (?w\<lparr>wconn := conn0\<lparr>inbuf := [1, 2, 3]\<rparr>, disk := ?fs3\<rparr>)"
  let ?w2 = "printProgress clock0 (set_current 3 (?w1\<lparr>wconn := conn0, disk := ?fs4\<rparr>))"
  let ?w' = "Finalize clock0 (printProgress clock0 (set_current (sint (FileSize ?fi)) ?w2))"
  have e: "''..'' \<in> set (splitBy (IsPathSeparator Unix) (Filename ?fi))" by simp
  have j: "Join Unix receiveDir (FromSlash Unix (Filename ?fi)) = ''evil''" by code_simp
  have d: "Dir Unix ''evil'' = ''.''" by code_simp
  have o: "\<not> within_root Unix receiveDir ''evil''" by (simp add: within_root_def receiveDir_def)
  have r: "receiveFileInfo (wconn ?w) = (Inr ?fi, conn0\<lparr>inbuf := [1, 2, 3]\<rparr>)"
    using receiveFileInfo_frame [where fi = ?fi and c = conn0 and rest = "[1, 2, 3]"] by simp
  have m: "MkdirAll Unix (disk ?w) receiveDir = (None, ?fs1)"
    by (simp add: world0_def MkdirAll_def receiveDir_def Clean_def is_rooted_def clean_elems_def
        clean_step_def Stat_def is_anchor_def)
  have p: "(if Dir Unix (Join Unix receiveDir (FromSlash Unix (Filename ?fi))) \<noteq> ''.'' \<and>
             Dir Unix (Join Unix receiveDir (FromSlash Unix (Filename ?fi))) \<noteq> receiveDir
          then MkdirAll Unix ?fs1 (Dir Unix (Join Unix receiveDir (FromSlash Unix (Filename ?fi))))
          else (None, ?fs1)) = (None, ?fs1)"
    by (simp only: j d) simp
  have c: "Create Unix ?fs1 (Join Unix receiveDir (FromSlash Unix (Filename ?fi))) = Inr ?fs3"
    by (simp only: j) (simp add: Create_def Dir_def Clean_def is_rooted_def clean_elems_def
        clean_step_def Stat_def is_anchor_def)
  have n: "\<not> IsDirectory ?fi" by simp
  have s: "sint (FileSize ?fi) = 3" by simp
  have cl: "Clean Unix ''evil'' = ''evil''" by code_simp
  have fw: "file_Write Unix (disk ?w1) ''evil'' (take (nat (3 - 0)) (inbuf (wconn ?w1))) = (None, ?fs4)"
    by (simp add: file_Write_def cl file_content_def fun_upd_twist)
  have "receiveContent Unix clock0 ''evil'' 3 0 ?w1 = Some (None, printProgress clock0 (set_current 3
          (?w1\<lparr>wconn := (wconn ?w1)\<lparr>inbuf := drop (nat (3 - 0)) (inbuf (wconn ?w1))\<rparr>, disk := ?fs4\<rparr>)))"
    by (rule receiveContent_one_chunk [OF _ _ _ fw]) (simp_all add: chunkSize_def)
  then have loop: "receiveContent Unix clock0 (Join Unix receiveDir (FromSlash Unix (Filename ?fi)))
      (sint (FileSize ?fi)) 0 ?w1 = Some (None, ?w2)"
    by (simp only: j s) (simp add: conn0_def)
  have "receiveFileRaw Unix clock0 ?w' = Some (None, ?w')"
    by (rule receiveFileRaw_at_EOF) (simp_all add: conn0_def)
  then have run: "receiveFileRaw Unix clock0 ?w = Some (None, ?w')"
    by (simp only: receiveFileRaw_file_frame [OF r n m p c] loop option.case prod.case)
  have z: "nodes (disk world0) ''evil'' = None" by (simp add: world0_def)
  have f: "nodes (disk ?w') ''evil'' = Some (FFile [1, 2, 3])" by simp
  from e n j o run z f show ?thesis by blast
qed

section \<open>Properties of the sender\<close>

subsection \<open>The descriptors that are sent\<close>

lemma sent_set_current [simp]: "sent (set_current v w) = sent w"
  by (simp add: set_current_def)

lemma sent_printProgress [simp]: "sent (printProgress now w) = sent w"
  by (simp add: printProgress_def Let_def)

lemma sent_Finalize [simp]: "sent (Finalize now w) = sent w"
  by (simp add: Finalize_def Let_def)

lemma sent_NewProgressWriter [simp]: "sent (NewProgressWriter now t n w) = sent w"
  by (simp add: NewProgressWriter_def)

lemma sent_sendContent:
  "sendContent now data fend tot w = (r, w') \<Longrightarrow> sent w' = sent w"
proof (induction now data fend tot w arbitrary: r w' rule: sendContent.induct)
  case (1 now data fend totalSent w)
  show ?case
    using "1.prems"
    apply (subst (asm) sendContent.simps)
    apply (auto simp: Let_def split: prod.splits option.splits if_splits dest!: "1.IH" [rotated -1])
    done
qed


lemma sent_sendFileInfo_logged:
  "sendFileInfo_logged w fi = (r, w') \<Longrightarrow> sent w' = sent w @ [fi]"
  by (auto simp: sendFileInfo_logged_def split: prod.splits)

lemma sent_sendSingleFile:
  assumes "sendSingleFile h now w openErr statSize data fend name = (r, w')"
  shows "\<exists>xs. sent w' = sent w @ xs \<and> (\<forall>fi \<in> set xs. \<not> IsDirectory fi)"
proof (cases openErr)
  case (Some e)
  with assms show ?thesis by (simp add: sendSingleFile_def)
next
  case None
  let ?fi = "\<lparr>Filename = name, FileSize = statSize, IsDirectory = False\<rparr>"
  obtain r1 w1 where s1: "sendFileInfo_logged w ?fi = (r1, w1)" by force
  then have w1: "sent w1 = sent w @ [?fi]" by (rule sent_sendFileInfo_logged)
  show ?thesis
  proof (cases r1)
    case (Some e)
    with assms None s1 w1 show ?thesis by (auto simp: sendSingleFile_def)
  next
    case n: None
    obtain r3 w3 where s3: "sendContent now data fend 0
        (NewProgressWriter now (sint statSize) (Base h name) w1) = (r3, w3)" by force
    then have "sent w3 = sent w1" using sent_sendContent by fastforce
    with assms None s1 n s3 w1 show ?thesis
      by (auto simp: sendSingleFile_def Let_def split: option.splits)
  qed
qed

lemma sent_visit:
  assumes "visit h now wd dirPath absDirPath path n w = (r, w')"
  shows "\<exists>xs. sent w' = sent w @ xs \<and> (\<forall>fi \<in> set xs. IsDirectory fi \<longrightarrow> FileSize fi = 0)"
proof (cases n)
  case (FileN openErr statSize data fend)
  show ?thesis
  proof (cases "sendSingleFile h now w openErr statSize data fend
      (ToSlash h (Join h (Base h absDirPath)
         (case Rel h absDirPath (case Abs h wd path of Inr a \<Rightarrow> a | Inl e \<Rightarrow> []) of
            Inr r \<Rightarrow> r | Inl e \<Rightarrow> [])))")
    case (Pair r1 w1)
    from sent_sendSingleFile [OF Pair] obtain xs where
      "sent w1 = sent w @ xs" "\<forall>fi \<in> set xs. \<not> IsDirectory fi" by blast
    with assms FileN Pair show ?thesis
      by (auto simp: visit_def Let_def split: if_splits sum.splits option.splits)
  qed
next
  case (DirN rd es)
  with assms show ?thesis
    by (auto simp: visit_def Let_def split: if_splits sum.splits option.splits prod.splits
        dest!: sent_sendFileInfo_logged)
next
  case (Failing e)
  with assms show ?thesis by (simp add: visit_def)
qed

lemma sent_walk:
  "walk h now wd dirPath absDirPath path n w = (r, w') \<Longrightarrow>
     \<exists>xs. sent w' = sent w @ xs \<and> (\<forall>fi \<in> set xs. IsDirectory fi \<longrightarrow> FileSize fi = 0)"
  and sent_walk_entries:
  "walk_entries h now wd dirPath absDirPath path es w = (r, w') \<Longrightarrow>
     \<exists>xs. sent w' = sent w @ xs \<and> (\<forall>fi \<in> set xs. IsDirectory fi \<longrightarrow> FileSize fi = 0)"
proof (induction h now wd dirPath absDirPath path n w and h now wd dirPath absDirPath path es w
    arbitrary: r w' and r w' rule: walk_walk_entries.induct)
  case (1 h now wd dirPath absDirPath path rd es w)
  obtain r1 w1 where v: "visit h now wd dirPath absDirPath path (DirN rd es) w = (r1, w1)"
    by force
  from sent_visit [OF v] obtain xs where xs: "sent w1 = sent w @ xs"
    "\<forall>fi \<in> set xs. IsDirectory fi \<longrightarrow> FileSize fi = 0" by blast
  show ?case
  proof (cases r1)
    case (Some e)
    with "1.prems" v xs show ?thesis by auto
  next
    case None
    with "1.prems" v have "walk_entries h now wd dirPath absDirPath path es w1 = (r, w')"
      by simp
    from "1.IH" [OF v [symmetric] None this] obtain ys where
      "sent w' = sent w1 @ ys" "\<forall>fi \<in> set ys. IsDirectory fi \<longrightarrow> FileSize fi = 0" by blast
    with xs show ?thesis by auto
  qed
next
  case (2 h now wd dirPath absDirPath path openErr statSize data fend w)
  then show ?case using sent_visit by simp
next
  case (3 h now wd dirPath absDirPath path e w)
  then show ?case using sent_visit by simp
next
  case (4 h now wd dirPath absDirPath path w)
  then show ?case by simp
next
  case (5 h now wd dirPath absDirPath path name n es w)
  obtain r1 w1 where v: "walk h now wd dirPath absDirPath (Join h path name) n w = (r1, w1)"
    by force
  from "5.IH"(1) [OF v] obtain xs where xs: "sent w1 = sent w @ xs"
    "\<forall>fi \<in> set xs. IsDirectory fi \<longrightarrow> FileSize fi = 0" by blast
  show ?case
  proof (cases r1)
    case (Some e)
    with "5.prems" v xs show ?thesis by auto
  next
    case None
    with "5.prems" v have "walk_entries h now wd dirPath absDirPath path es w1 = (r, w')"
      by simp
    from "5.IH"(2) [OF v [symmetric] None this] obtain ys where
      "sent w' = sent w1 @ ys" "\<forall>fi \<in> set ys. IsDirectory fi \<longrightarrow> FileSize fi = 0" by blast
    with xs show ?thesis by auto
  qed
qed

text \<open>
  C7. Whatever \<open>sendDirectoryRaw\<close> finds and however the run ends, the descriptors it
  hands to \<open>sendFileInfo\<close> are added to the history, and each of them that is a
  directory descriptor (the marker of the root and the marker of every subdirectory
  below it) has the size 0.
\<close>

theorem directory_descriptors_size_zero:
  assumes "sendDirectoryRaw h now wd w dirPath root = (r, w')"
  shows "sent w' = sent w @ new_sent w w' \<and>
         (\<forall>fi \<in> set (new_sent w w'). IsDirectory fi \<longrightarrow> FileSize fi = 0)"
proof -
  have "\<exists>xs. sent w' = sent w @ xs \<and> (\<forall>fi \<in> set xs. IsDirectory fi \<longrightarrow> FileSize fi = 0)"
  proof (cases "Abs h wd dirPath")
    case (Inl e)
    with assms show ?thesis by (simp add: sendDirectoryRaw_def)
  next
    case (Inr absDirPath)
    let ?fi = "\<lparr>Filename = Base h dirPath, FileSize = 0, IsDirectory = True\<rparr>"
    obtain r1 w1 where s1: "sendFileInfo_logged w ?fi = (r1, w1)" by force
    then have w1: "sent w1 = sent w @ [?fi]" by (rule sent_sendFileInfo_logged)
    show ?thesis
    proof (cases r1)
      case (Some e)
      with assms Inr s1 w1 show ?thesis by (auto simp: sendDirectoryRaw_def)
    next
      case None
      with assms Inr s1 have "walk h now wd dirPath absDirPath dirPath root w1 = (r, w')"
        by (simp add: sendDirectoryRaw_def)
      from sent_walk [OF this] w1 show ?thesis by auto
    qed
  qed
  then show ?thesis by (auto simp: new_sent_def)
qed

section \<open>Properties of the path functions\<close>

subsection \<open>Splitting and joining\<close>

lemma splitBy_nonempty [simp]: "splitBy P xs \<noteq> []"
  by (induction xs) (auto split: list.splits)

lemma splitBy_no_sep: "list_all (\<lambda>c. \<not> P c) x \<Longrightarrow> splitBy P x = [x]"
  by (induction x) auto

lemma splitBy_append:
  "P s \<Longrightarrow> splitBy P (a @ s # b) = splitBy P a @ splitBy P b"
proof (induction a)
  case Nil then show ?case by simp
next
  case (Cons c a)
  obtain y ys where y: "splitBy P a = y # ys" by (cases "splitBy P a") auto
  with Cons show ?case by simp
qed

lemma splitBy_elements: "x \<in> set (splitBy P xs) \<Longrightarrow> list_all (\<lambda>c. \<not> P c) x"
proof (induction xs arbitrary: x)
  case Nil then show ?case by simp
next
  case (Cons c cs)
  obtain y ys where y: "splitBy P cs = y # ys" by (cases "splitBy P cs") auto
  with Cons show ?case by (auto split: if_splits)
qed

lemma splitBy_join:
  assumes "P s"
  shows "\<forall>x \<in> set xs. list_all (\<lambda>c. \<not> P c) x \<Longrightarrow> xs \<noteq> [] \<Longrightarrow>
         splitBy P (join_with s xs) = xs"
proof (induction xs)
  case Nil then show ?case by simp
next
  case (Cons x xs)
  show ?case
  proof (cases xs)
    case Nil
    with Cons.prems show ?thesis by (simp add: splitBy_no_sep)
  next
    case (Cons y ys)
    have "splitBy P (join_with s (x # xs)) = splitBy P (x @ s # join_with s xs)"
      using Cons by simp
    also have "\<dots> = splitBy P x @ splitBy P (join_with s xs)"
      using assms by (rule splitBy_append)
    also have "splitBy P x = [x]" using Cons.prems by (simp add: splitBy_no_sep)
    also have "splitBy P (join_with s xs) = xs"
      using Cons.prems Cons by (intro Cons.IH) simp_all
    finally show ?thesis by simp
  qed
qed

lemma join_with_snoc:
  "xs \<noteq> [] \<Longrightarrow> join_with s (xs @ [x]) = join_with s xs @ s # x"
  by (induction s xs rule: join_with.induct) auto

subsection \<open>The stack of \<open>Clean\<close>\<close>

lemma clean_step_real: "real_elem e \<Longrightarrow> clean_step r e st = e # st"
  by (simp add: clean_step_def real_elem_def)

lemma clean_step_skip: "e = [] \<or> e = ''.'' \<Longrightarrow> clean_step r e st = st"
  by (auto simp: clean_step_def)

lemma fold_clean_real:
  "\<forall>e \<in> set ns. real_elem e \<Longrightarrow> fold (clean_step r) ns st = rev ns @ st"
  by (induction ns arbitrary: st) (simp_all add: clean_step_real)

text \<open>Every element on the stack is a real element or \<open>..\<close>; on a rooted path all are real.\<close>

lemma clean_step_stack:
  assumes "\<forall>x \<in> set st. x \<noteq> [] \<and> x \<noteq> ''.''"
  shows "\<forall>x \<in> set (clean_step r e st). x \<noteq> [] \<and> x \<noteq> ''.''"
  using assms by (cases st) (auto simp: clean_step_def)

lemma fold_clean_stack:
  "\<forall>x \<in> set st. x \<noteq> [] \<and> x \<noteq> ''.'' \<Longrightarrow>
   \<forall>x \<in> set (fold (clean_step r) xs st). x \<noteq> [] \<and> x \<noteq> ''.''"
proof (induction xs arbitrary: st)
  case Nil then show ?case by simp
next
  case (Cons e xs)
  show ?case using Cons.IH [OF clean_step_stack [OF Cons.prems]] by simp
qed

lemma clean_step_rooted_real:
  assumes "\<forall>x \<in> set st. real_elem x"
  shows "\<forall>x \<in> set (clean_step True e st). real_elem x"
  using assms by (cases st) (auto simp: clean_step_def real_elem_def)

lemma fold_clean_rooted_real:
  "\<forall>x \<in> set st. real_elem x \<Longrightarrow> \<forall>x \<in> set (fold (clean_step True) xs st). real_elem x"
proof (induction xs arbitrary: st)
  case Nil then show ?case by simp
next
  case (Cons e xs)
  show ?case using Cons.IH [OF clean_step_rooted_real [OF Cons.prems]] by simp
qed

lemma clean_step_subset: "set (clean_step r e st) \<subseteq> insert e (set st)"
  by (cases st) (auto simp: clean_step_def)

lemma fold_clean_subset: "set (fold (clean_step r) xs st) \<subseteq> set xs \<union> set st"
proof (induction xs arbitrary: st)
  case Nil then show ?case by simp
next
  case (Cons e xs)
  show ?case using Cons.IH [of "clean_step r e st"] clean_step_subset [of r e st] by auto
qed

text \<open>
  Cleaning the elements of a relative path first and then reading the cleaned elements
  gives the same stack as reading the elements directly, on top of any stack.
\<close>

lemma fold_clean_normalise:
  "fold (clean_step r) xs st =
   fold (clean_step r) (rev (fold (clean_step False) xs [])) st"
proof (induction xs rule: rev_induct)
  case Nil then show ?case by simp
next
  case (snoc e xs)
  define T where "T = fold (clean_step False) xs []"
  have inv: "\<forall>x \<in> set T. x \<noteq> [] \<and> x \<noteq> ''.''"
    unfolding T_def by (rule fold_clean_stack) simp
  have ih: "fold (clean_step r) xs st = fold (clean_step r) (rev T) st"
    using snoc by (simp add: T_def)
  have lhs: "fold (clean_step r) (xs @ [e]) st = clean_step r e (fold (clean_step r) (rev T) st)"
    by (simp add: ih)
  have goal: "clean_step r e (fold (clean_step r) (rev T) st)
      = fold (clean_step r) (rev (clean_step False e T)) st"
  proof (cases "e = [] \<or> e = ''.''")
    case True
    then show ?thesis by (auto simp: clean_step_def)
  next
    case False
    show ?thesis
    proof (cases "e = ''..''")
      case e: True
      show ?thesis
      proof (cases T)
        case Nil
        with e show ?thesis by (simp add: clean_step_def)
      next
        case (Cons t T')
        show ?thesis
        proof (cases "t = ''..''")
          case True
          with e Cons show ?thesis by (simp add: clean_step_def)
        next
          case f: False
          then have "real_elem t" using inv Cons by (simp add: real_elem_def)
          then have "fold (clean_step r) (rev T) st = t # fold (clean_step r) (rev T') st"
            using Cons by (simp add: clean_step_real)
          moreover have "clean_step False e T = T'" using e Cons f by (simp add: clean_step_def)
          ultimately show ?thesis using e f by (simp add: clean_step_def)
        qed
      qed
    next
      case f: False
      with False have "real_elem e" by (simp add: real_elem_def)
      then show ?thesis by (simp add: clean_step_real)
    qed
  qed
  show ?case using lhs goal by (simp add: T_def)
qed

subsection \<open>Cleaned paths\<close>

lemma sep_is_sep [simp]: "IsPathSeparator h (Separator h)"
  by (cases h) simp_all

lemma dot_not_sep [simp]: "\<not> IsPathSeparator h CHR ''.''"
  by (cases h) simp_all

lemma clean_elems_sep_free:
  assumes "x \<in> set (clean_elems h p)"
  shows "list_all (\<lambda>c. \<not> IsPathSeparator h c) x"
proof -
  have "x \<in> set (splitBy (IsPathSeparator h) p)"
    using assms fold_clean_subset [of "is_rooted h p" "splitBy (IsPathSeparator h) p" "[]"]
    by (auto simp: clean_elems_def)
  then show ?thesis by (rule splitBy_elements)
qed

lemma clean_elems_no_dot:
  assumes "x \<in> set (clean_elems h p)"
  shows "x \<noteq> [] \<and> x \<noteq> ''.''"
  using assms fold_clean_stack [of "[]" "is_rooted h p" "splitBy (IsPathSeparator h) p"]
  by (simp add: clean_elems_def)

lemma clean_elems_rooted_real:
  assumes "is_rooted h p" and "x \<in> set (clean_elems h p)"
  shows "real_elem x"
  using assms fold_clean_rooted_real [of "[]" "splitBy (IsPathSeparator h) p"]
  by (simp add: clean_elems_def)

lemma Clean_rooted:
  "is_rooted h p \<Longrightarrow> Clean h p = Separator h # join_with (Separator h) (clean_elems h p)"
  by (simp add: Clean_def)

lemma Clean_relative:
  "\<not> is_rooted h p \<Longrightarrow> clean_elems h p \<noteq> [] \<Longrightarrow>
   Clean h p = join_with (Separator h) (clean_elems h p)"
  by (simp add: Clean_def)

lemma join_with_hd:
  "xs \<noteq> [] \<Longrightarrow> hd xs \<noteq> [] \<Longrightarrow> join_with s xs \<noteq> [] \<and> hd (join_with s xs) = hd (hd xs)"
  by (induction s xs rule: join_with.induct) auto

lemma join_not_rooted:
  assumes "xs \<noteq> []" and "hd xs \<noteq> []" and "list_all (\<lambda>c. \<not> IsPathSeparator h c) (hd xs)"
  shows "\<not> is_rooted h (join_with s xs)"
proof -
  have "hd (hd xs) \<in> set (hd xs)" using assms(2) by simp
  then have "\<not> IsPathSeparator h (hd (hd xs))"
    using assms(3) by (simp add: list_all_iff)
  then show ?thesis using join_with_hd [OF assms(1,2), of s] by (simp add: is_rooted_def)
qed

lemma is_rooted_Clean [simp]: "is_rooted h (Clean h p) = is_rooted h p"
proof (cases "is_rooted h p")
  case True
  then show ?thesis by (simp add: Clean_rooted is_rooted_def)
next
  case False
  show ?thesis
  proof (cases "clean_elems h p = []")
    case True
    with False show ?thesis by (simp add: Clean_def is_rooted_def)
  next
    case ne: False
    then have "hd (clean_elems h p) \<in> set (clean_elems h p)" by simp
    then have "hd (clean_elems h p) \<noteq> []"
      and "list_all (\<lambda>c. \<not> IsPathSeparator h c) (hd (clean_elems h p))"
      using clean_elems_no_dot clean_elems_sep_free by blast+
    then have "\<not> is_rooted h (join_with (Separator h) (clean_elems h p))"
      using ne by (intro join_not_rooted)
    with False ne show ?thesis by (simp add: Clean_relative)
  qed
qed

lemma is_rooted_Nil [simp]: "\<not> is_rooted h []"
  by (simp add: is_rooted_def)

lemma clean_elems_Clean [simp]: "clean_elems h (Clean h p) = clean_elems h p"
proof -
  let ?P = "IsPathSeparator h" and ?s = "Separator h" and ?E = "clean_elems h p"
  have free: "\<forall>x \<in> set ?E. list_all (\<lambda>c. \<not> ?P c) x"
    using clean_elems_sep_free by blast
  show ?thesis
  proof (cases "is_rooted h p")
    case True
    have real: "\<forall>x \<in> set ?E. real_elem x" using True clean_elems_rooted_real by blast
    have "splitBy ?P (Clean h p) = [] # (if ?E = [] then [[]] else ?E)"
      using True free by (simp add: Clean_rooted splitBy_join)
    then have "fold (clean_step True) (splitBy ?P (Clean h p)) [] = rev ?E"
      using real by (simp add: clean_step_skip fold_clean_real)
    then show ?thesis
      using True by (simp add: clean_elems_def [of h "Clean h p"])
  next
    case False
    show ?thesis
    proof (cases "?E = []")
      case True
      have "Clean h p = ''.''" using False True by (simp add: Clean_def)
      moreover have "clean_elems h ''.'' = []"
        by (simp add: clean_elems_def is_rooted_def clean_step_def)
      ultimately show ?thesis using True by simp
    next
      case ne: False
      have "splitBy ?P (Clean h p) = ?E"
        using False ne free by (simp add: Clean_relative splitBy_join)
      moreover have "fold (clean_step False) ?E [] = rev ?E"
        using fold_clean_normalise [of False "splitBy ?P p" "[]"] False
        by (simp add: clean_elems_def)
      ultimately show ?thesis
        using False by (simp add: clean_elems_def [of h "Clean h p"])
    qed
  qed
qed

lemma Clean_idem [simp]: "Clean h (Clean h p) = Clean h p"
  by (simp add: Clean_def [of h "Clean h p"]) (simp add: Clean_def)

lemma valid_name_real: "valid_name h n \<Longrightarrow> real_elem n"
  by (simp add: valid_name_def real_elem_def)

lemma valid_name_free: "valid_name h n \<Longrightarrow> list_all (\<lambda>c. \<not> IsPathSeparator h c) n"
  by (simp add: valid_name_def)

lemma valid_name_not_rooted: "valid_name h n \<Longrightarrow> \<not> is_rooted h n"
  by (cases n) (auto simp: valid_name_def is_rooted_def)

lemma clean_elems_empty [simp]: "clean_elems h [] = []"
  by (simp add: clean_elems_def clean_step_def)

lemma clean_elems_snoc:
  assumes "valid_name h n" and "a \<noteq> []"
  shows "clean_elems h (a @ Separator h # n) = clean_elems h a @ [n]"
    and "is_rooted h (a @ Separator h # n) = is_rooted h a"
proof -
  show r: "is_rooted h (a @ Separator h # n) = is_rooted h a"
    using assms(2) by (cases a) (simp_all add: is_rooted_def)
  have "splitBy (IsPathSeparator h) (a @ Separator h # n) = splitBy (IsPathSeparator h) a @ [n]"
    using assms(1) by (simp add: splitBy_append splitBy_no_sep valid_name_free)
  then show "clean_elems h (a @ Separator h # n) = clean_elems h a @ [n]"
    using assms(1) by (simp add: clean_elems_def r clean_step_real valid_name_real)
qed

lemma clean_elems_name:
  assumes "valid_name h n"
  shows "clean_elems h n = [n]"
  using assms
  by (simp add: clean_elems_def splitBy_no_sep valid_name_free clean_step_real valid_name_real)

lemma Join_valid:
  assumes "valid_name h n"
  shows "is_rooted h (Join h a n) = is_rooted h a"
    and "clean_elems h (Join h a n) = clean_elems h a @ [n]"
proof -
  have n: "n \<noteq> []" using assms by (simp add: valid_name_def)
  show "is_rooted h (Join h a n) = is_rooted h a"
    using assms n
    by (cases "a = []") (simp_all add: Join_def clean_elems_snoc valid_name_not_rooted)
  show "clean_elems h (Join h a n) = clean_elems h a @ [n]"
    using assms n
    by (cases "a = []") (simp_all add: Join_def clean_elems_snoc clean_elems_name)
qed

subsection \<open>Absolute and relative paths of the descendants\<close>

lemma Abs_rooted:
  assumes "is_rooted h cwd"
  shows "\<exists>A. Abs h (Inr cwd) q = Inr A \<and> is_rooted h A \<and> Clean h A = A"
proof (cases "is_rooted h q")
  case True
  then show ?thesis by (simp add: Abs_def)
next
  case False
  have "cwd \<noteq> []" using assms by (auto simp: is_rooted_def)
  then have "is_rooted h (cwd @ Separator h # q)"
    using assms by (cases cwd) (simp_all add: is_rooted_def)
  with False \<open>cwd \<noteq> []\<close> show ?thesis by (simp add: Abs_def Join_def)
qed

lemma Abs_elems_relative:
  assumes "is_rooted h cwd" and "\<not> is_rooted h q" and "Abs h (Inr cwd) q = Inr A"
  shows "clean_elems h A =
           rev (fold (clean_step True) (splitBy (IsPathSeparator h) q)
                  (fold (clean_step True) (splitBy (IsPathSeparator h) cwd) []))"
proof -
  have ne: "cwd \<noteq> []" using assms(1) by (auto simp: is_rooted_def)
  then have r: "is_rooted h (cwd @ Separator h # q)"
    using assms(1) by (cases cwd) (simp_all add: is_rooted_def)
  have "A = Clean h (cwd @ Separator h # q)"
    using assms(2,3) ne by (simp add: Abs_def Join_def)
  then show ?thesis
    by (simp add: clean_elems_def [of h "cwd @ Separator h # q"] r splitBy_append)
qed

lemma Abs_Join:
  assumes "is_rooted h cwd" and "valid_name h n"
    and "Abs h (Inr cwd) q = Inr A" and "Abs h (Inr cwd) (Join h q n) = Inr A'"
  shows "clean_elems h A' = clean_elems h A @ [n]"
proof (cases "is_rooted h q")
  case True
  then have "is_rooted h (Join h q n)" using assms(2) by (simp add: Join_valid)
  with True assms show ?thesis by (auto simp: Abs_def Join_valid)
next
  case False
  let ?P = "IsPathSeparator h"
  let ?C = "fold (clean_step True) (splitBy ?P cwd) []"
  have nr: "\<not> is_rooted h (Join h q n)" using False assms(2) by (simp add: Join_valid)
  have E': "clean_elems h (Join h q n) = clean_elems h q @ [n]"
    using assms(2) by (rule Join_valid)
  have J: "Join h q n = Clean h (Join h q n)"
    using assms(2) by (cases "q = []") (simp_all add: Join_def valid_name_def)
  have "Join h q n = join_with (Separator h) (clean_elems h q @ [n])"
    using nr E' J Clean_relative [of h "Join h q n"] by simp
  moreover have "\<forall>x \<in> set (clean_elems h q @ [n]). list_all (\<lambda>c. \<not> ?P c) x"
    using clean_elems_sep_free [of _ h q] assms(2) by (auto simp: valid_name_free)
  ultimately have sp: "splitBy ?P (Join h q n) = clean_elems h q @ [n]"
    by (simp add: splitBy_join)
  have "fold (clean_step True) (clean_elems h q) ?C = fold (clean_step True) (splitBy ?P q) ?C"
    using fold_clean_normalise [of True "splitBy ?P q" ?C] False
    by (simp add: clean_elems_def)
  then have "fold (clean_step True) (splitBy ?P (Join h q n)) ?C =
      n # fold (clean_step True) (splitBy ?P q) ?C"
    using assms(2) by (simp add: sp clean_step_real valid_name_real)
  then show ?thesis
    using Abs_elems_relative [OF assms(1) False assms(3)]
      Abs_elems_relative [OF assms(1) nr assms(4)] by simp
qed

lemma drop_common_prefix: "drop_common xs (xs @ ys) = ([], ys)"
  by (induction xs) simp_all

lemma Rel_descendant:
  assumes "Clean h B = B" and "Clean h A = A" and "is_rooted h B" and "is_rooted h A"
    and "clean_elems h A = clean_elems h B @ ns" and "ns \<noteq> []"
  shows "Rel h B A = Inr (join_with (Separator h) ns)"
proof -
  have "A \<noteq> B" using assms(5,6) by auto
  then show ?thesis
    using assms by (simp add: Rel_def drop_common_prefix)
qed

lemma join_with_last:
  "E \<noteq> [] \<Longrightarrow> \<exists>pre. s # join_with s E = pre @ s # last E"
proof (induction s E rule: join_with.induct)
  case (1 s) then show ?case by simp
next
  case (2 s x)
  show ?case by (rule exI [of _ "[]"]) simp
next
  case (3 s x y ys)
  then obtain pre where "s # join_with s (y # ys) = pre @ s # last (y # ys)" by auto
  then have "s # join_with s (x # y # ys) = (s # x @ pre) @ s # last (x # y # ys)" by simp
  then show ?case by blast
qed

lemma Base_last_element:
  assumes "x \<noteq> []" and "list_all (\<lambda>c. \<not> IsPathSeparator h c) x"
  shows "Base h (pre @ Separator h # x) = x"
proof -
  let ?P = "IsPathSeparator h"
  obtain y ys where r: "rev x = y # ys" using assms(1) by (cases "rev x") auto
  have all: "\<forall>c \<in> set (rev x). \<not> ?P c" using assms(2) by (simp add: list_all_iff)
  then have "\<not> ?P y" using r by simp
  then have d: "dropWhile ?P (rev (pre @ Separator h # x)) = rev (pre @ Separator h # x)"
    using r by simp
  have "takeWhile (\<lambda>c. \<not> ?P c) (rev x @ Separator h # rev pre)
      = rev x @ takeWhile (\<lambda>c. \<not> ?P c) (Separator h # rev pre)"
    using all by (intro takeWhile_append2) simp
  then have "takeWhile (\<lambda>c. \<not> ?P c) (rev x @ Separator h # rev pre) = rev x"
    by simp
  then have t: "takeWhile (\<lambda>c. \<not> ?P c) (rev (pre @ Separator h # x)) = rev x" by simp
  show ?thesis
    unfolding Base_def Let_def d by (simp only: rev_rev_ident t) (simp add: assms(1))
qed

lemma Base_clean_rooted:
  assumes "Clean h B = B" and "is_rooted h B" and "clean_elems h B \<noteq> []"
  shows "Base h B = last (clean_elems h B)"
proof -
  let ?E = "clean_elems h B"
  have "B = Separator h # join_with (Separator h) ?E"
    using assms(1,2) Clean_rooted [of h B] by simp
  then obtain pre where B: "B = pre @ Separator h # last ?E"
    using join_with_last [OF assms(3), of "Separator h"] by auto
  have l: "last ?E \<in> set ?E" using assms(3) by simp
  have "Base h (pre @ Separator h # last ?E) = last ?E"
    using clean_elems_no_dot [OF l] clean_elems_sep_free [OF l] by (intro Base_last_element) simp_all
  with B show ?thesis by simp
qed

lemma base_valid_name:
  assumes "is_rooted h B" and "clean_elems h B \<noteq> []"
  shows "valid_name h (last (clean_elems h B))"
proof -
  have l: "last (clean_elems h B) \<in> set (clean_elems h B)" using assms(2) by simp
  show ?thesis
    using clean_elems_rooted_real [OF assms(1) l] clean_elems_sep_free [OF l]
    by (simp add: valid_name_def real_elem_def)
qed

lemma Clean_join_valid:
  assumes "\<forall>n \<in> set xs. valid_name h n" and "xs \<noteq> []"
  shows "Clean h (join_with (Separator h) xs) = join_with (Separator h) xs"
proof -
  let ?p = "join_with (Separator h) xs"
  have free: "\<forall>x \<in> set xs. list_all (\<lambda>c. \<not> IsPathSeparator h c) x"
    using assms(1) valid_name_free by blast
  have real: "\<forall>x \<in> set xs. real_elem x" using assms(1) valid_name_real by blast
  have "hd xs \<in> set xs" using assms(2) by simp
  then have "hd xs \<noteq> []" "list_all (\<lambda>c. \<not> IsPathSeparator h c) (hd xs)"
    using assms(1) by (auto simp: valid_name_def)
  then have nr: "\<not> is_rooted h ?p" using assms(2) by (intro join_not_rooted)
  have "splitBy (IsPathSeparator h) ?p = xs" using free assms(2) by (simp add: splitBy_join)
  then have "clean_elems h ?p = xs" using nr real by (simp add: clean_elems_def fold_clean_real)
  then show ?thesis using nr assms(2) by (simp add: Clean_relative)
qed

lemma Join_base_rel:
  assumes "valid_name h b" and "\<forall>n \<in> set ns. valid_name h n" and "ns \<noteq> []"
  shows "Join h b (join_with (Separator h) ns) = join_with (Separator h) (b # ns)"
proof -
  obtain n ns' where ns: "ns = n # ns'" using assms(3) by (cases ns) auto
  have "b \<noteq> []" using assms(1) by (simp add: valid_name_def)
  then have "Join h b (join_with (Separator h) ns) = Clean h (join_with (Separator h) (b # ns))"
    by (simp add: Join_def ns)
  also have "\<dots> = join_with (Separator h) (b # ns)"
    using assms(1,2) by (intro Clean_join_valid) simp_all
  finally show ?thesis .
qed

lemma ToSlash_join:
  assumes "\<forall>x \<in> set xs. list_all (\<lambda>c. \<not> IsPathSeparator h c) x"
  shows "ToSlash h (join_with (Separator h) xs) = join_with CHR ''/'' xs"
proof (cases h)
  case Unix
  then show ?thesis by (simp add: ToSlash_def)
next
  case Windows
  let ?f = "\<lambda>c. if c = CHR 0x5C then CHR ''/'' else c"
  have m: "map ?f x = x" if "list_all (\<lambda>c. \<not> IsPathSeparator Windows c) x" for x
    using that by (induction x) auto
  have "map ?f (join_with (CHR 0x5C) xs) = join_with CHR ''/'' xs"
    using assms [unfolded Windows]
    by (induction "CHR 0x5C" xs rule: join_with.induct) (simp_all add: m)
  then show ?thesis using Windows by (simp add: ToSlash_def)
qed

text \<open>The name under which a descendant is sent.\<close>

lemma descendant_name:
  assumes "Clean h B = B" and "is_rooted h B" and "clean_elems h B \<noteq> []"
    and "\<forall>n \<in> set ns. valid_name h n" and "ns \<noteq> []"
  shows "ToSlash h (Join h (Base h B) (join_with (Separator h) ns))
           = join_with CHR ''/'' (Base h B # ns)"
proof -
  have b: "Base h B = last (clean_elems h B)" using assms(1-3) by (rule Base_clean_rooted)
  have v: "valid_name h (Base h B)" using base_valid_name [OF assms(2,3)] b by simp
  have "Join h (Base h B) (join_with (Separator h) ns) = join_with (Separator h) (Base h B # ns)"
    using v assms(4,5) by (rule Join_base_rel)
  moreover have "\<forall>x \<in> set (Base h B # ns). list_all (\<lambda>c. \<not> IsPathSeparator h c) x"
    using v assms(4) valid_name_free by auto
  ultimately show ?thesis by (simp only: ToSlash_join)
qed

subsection \<open>The names of the descendants\<close>

lemma sent_sendSingleFile_name:
  assumes "sendSingleFile h now w openErr statSize data fend name = (r, w')"
  shows "(sent w' = sent w \<or>
          sent w' = sent w @ [\<lparr>Filename = name, FileSize = statSize, IsDirectory = False\<rparr>]) \<and>
         (r = None \<longrightarrow>
          sent w' = sent w @ [\<lparr>Filename = name, FileSize = statSize, IsDirectory = False\<rparr>])"
proof (cases openErr)
  case (Some e)
  with assms show ?thesis by (auto simp: sendSingleFile_def)
next
  case None
  let ?fi = "\<lparr>Filename = name, FileSize = statSize, IsDirectory = False\<rparr>"
  obtain r1 w1 where s1: "sendFileInfo_logged w ?fi = (r1, w1)" by force
  then have w1: "sent w1 = sent w @ [?fi]" by (rule sent_sendFileInfo_logged)
  show ?thesis
  proof (cases r1)
    case (Some e)
    with assms None s1 w1 show ?thesis by (auto simp: sendSingleFile_def)
  next
    case n: None
    obtain r3 w3 where s3: "sendContent now data fend 0
        (NewProgressWriter now (sint statSize) (Base h name) w1) = (r3, w3)" by force
    then have "sent w3 = sent w1" using sent_sendContent by fastforce
    with assms None s1 n s3 w1 show ?thesis
      by (auto simp: sendSingleFile_def Let_def split: option.splits)
  qed
qed

lemma visit_descendant:
  assumes cwd: "is_rooted h cwd" and B: "Abs h (Inr cwd) dirPath = Inr B"
    and A: "Abs h (Inr cwd) path = Inr A" and elems: "clean_elems h A = clean_elems h B @ pre"
    and pre: "pre \<noteq> []" "\<forall>n \<in> set pre. valid_name h n"
    and run: "visit h now (Inr cwd) dirPath B path n w = (r, w')"
  shows "\<exists>xs. sent w' = sent w @ xs \<and>
           prefix (map Filename xs)
             [ToSlash h (Join h (Base h B) (join_with (Separator h) pre))] \<and>
           (r = None \<longrightarrow> map Filename xs =
             [ToSlash h (Join h (Base h B) (join_with (Separator h) pre))])"
proof -
  from Abs_rooted [OF cwd, of dirPath] B have Bc: "is_rooted h B" "Clean h B = B" by auto
  from Abs_rooted [OF cwd, of path] A have Ac: "is_rooted h A" "Clean h A = A" by auto
  have "A \<noteq> B" using elems pre(1) by auto
  then have ne: "path \<noteq> dirPath" using A B by auto
  have rel: "Rel h B A = Inr (join_with (Separator h) pre)"
    using Bc(2) Ac(2) Bc(1) Ac(1) elems pre(1) by (rule Rel_descendant)
  show ?thesis
  proof (cases n)
    case (Failing e)
    with run show ?thesis by (auto simp: visit_def)
  next
    case (DirN rd es)
    show ?thesis
    proof (cases rd)
      case (Some e)
      with run DirN show ?thesis by (auto simp: visit_def)
    next
      case None
      obtain r1 w1 where s: "sendFileInfo_logged w
          \<lparr>Filename = ToSlash h (Join h (Base h B) (join_with (Separator h) pre)),
           FileSize = 0, IsDirectory = True\<rparr> = (r1, w1)" by force
      from sent_sendFileInfo_logged [OF s] s run DirN None ne A rel
      show ?thesis
        by (auto simp: visit_def Let_def split: option.splits)
    qed
  next
    case (FileN openErr statSize data fend)
    obtain r1 w1 where s: "sendSingleFile h now w openErr statSize data fend
          (ToSlash h (Join h (Base h B) (join_with (Separator h) pre))) = (r1, w1)" by force
    from sent_sendSingleFile_name [OF s] s run FileN ne A rel
    show ?thesis
      by (auto simp: visit_def Let_def split: option.splits)
  qed
qed

lemma prefix_single: "prefix xs [a] \<Longrightarrow> prefix xs (a # bs)"
  using prefix_prefix [of xs "[a]" bs] by simp

lemma step_compose:
  assumes "sent w1 = sent w @ xs" and "sent w' = sent w1 @ ys"
    and "map f xs = as" and "prefix (map f ys) bs" and "r = None \<longrightarrow> map f ys = bs"
  shows "\<exists>zs. sent w' = sent w @ zs \<and> prefix (map f zs) (as @ bs) \<and>
           (r = None \<longrightarrow> map f zs = as @ bs)"
  using assms by (intro exI [of _ "xs @ ys"]) simp

lemma step_fail:
  assumes "sent w1 = sent w @ xs" and "prefix (map f xs) as" and "r \<noteq> None"
  shows "\<exists>zs. sent w1 = sent w @ zs \<and> prefix (map f zs) (as @ bs) \<and>
           (r = None \<longrightarrow> map f zs = as @ bs)"
  using assms by (intro exI [of _ xs]) auto

lemma walk_names:
  "walk h now wd dirPath B path n w = (r, w') \<Longrightarrow>
   wd = Inr cwd \<Longrightarrow> is_rooted h cwd \<Longrightarrow> Abs h (Inr cwd) dirPath = Inr B \<Longrightarrow>
   Abs h (Inr cwd) path = Inr A \<Longrightarrow> clean_elems h A = clean_elems h B @ pre \<Longrightarrow>
   pre \<noteq> [] \<Longrightarrow> \<forall>x \<in> set pre. valid_name h x \<Longrightarrow> valid_node h n \<Longrightarrow>
   \<exists>xs. sent w' = sent w @ xs \<and>
     prefix (map Filename xs)
       (map (\<lambda>ns. ToSlash h (Join h (Base h B) (join_with (Separator h) ns))) (pre # node_paths pre n)) \<and>
     (r = None \<longrightarrow> map Filename xs =
        map (\<lambda>ns. ToSlash h (Join h (Base h B) (join_with (Separator h) ns))) (pre # node_paths pre n))"
  and walk_entries_names:
  "walk_entries h now wd dirPath B path es w = (r, w') \<Longrightarrow>
   wd = Inr cwd \<Longrightarrow> is_rooted h cwd \<Longrightarrow> Abs h (Inr cwd) dirPath = Inr B \<Longrightarrow>
   Abs h (Inr cwd) path = Inr A \<Longrightarrow> clean_elems h A = clean_elems h B @ pre \<Longrightarrow>
   \<forall>x \<in> set pre. valid_name h x \<Longrightarrow> valid_entries h es \<Longrightarrow>
   \<exists>xs. sent w' = sent w @ xs \<and>
     prefix (map Filename xs)
       (map (\<lambda>ns. ToSlash h (Join h (Base h B) (join_with (Separator h) ns))) (tree_paths pre es)) \<and>
     (r = None \<longrightarrow> map Filename xs =
        map (\<lambda>ns. ToSlash h (Join h (Base h B) (join_with (Separator h) ns))) (tree_paths pre es))"
proof (induction h now wd dirPath B path n w and h now wd dirPath B path es w
    arbitrary: r w' A pre and r w' A pre rule: walk_walk_entries.induct)
  case (1 h now wd dirPath B path rd es w)
  let ?nm = "\<lambda>ns. ToSlash h (Join h (Base h B) (join_with (Separator h) ns))"
  obtain r1 w1 where v: "visit h now wd dirPath B path (DirN rd es) w = (r1, w1)" by force
  from visit_descendant [OF "1.prems"(3,4,5,6,7,8) v [unfolded "1.prems"(2)]]
  obtain xs where xs0: "sent w1 = sent w @ xs \<and> prefix (map Filename xs) [?nm pre] \<and>
    (r1 = None \<longrightarrow> map Filename xs = [?nm pre])" by (rule exE)
  note xs = conjunct1 [OF xs0] conjunct1 [OF conjunct2 [OF xs0]]
    conjunct2 [OF conjunct2 [OF xs0]]
  note xs2 = prefix_single [OF xs(2)]
  show ?case
  proof (cases r1)
    case (Some e)
    with "1.prems"(1) v have w: "w' = w1" and r: "r \<noteq> None" by auto
    from step_fail [OF xs(1) xs(2) r, of "map ?nm (node_paths pre (DirN rd es))"]
    show ?thesis unfolding w by simp
  next
    case None
    with "1.prems"(1) v have e: "walk_entries h now wd dirPath B path es w1 = (r, w')" by simp
    have "valid_entries h es" using "1.prems"(9) by simp
    from "1.IH" [OF v [symmetric] None e "1.prems"(2,3,4,5,6,8) this]
    obtain ys where ys0: "sent w' = sent w1 @ ys \<and>
      prefix (map Filename ys) (map ?nm (tree_paths pre es)) \<and>
      (r = None \<longrightarrow> map Filename ys = map ?nm (tree_paths pre es))" by (rule exE)
    note ys = conjunct1 [OF ys0] conjunct1 [OF conjunct2 [OF ys0]]
      conjunct2 [OF conjunct2 [OF ys0]]
    have "map Filename xs = [?nm pre]" using xs(3) None by simp
    from step_compose [OF xs(1) ys(1) this ys(2) ys(3)] show ?thesis by simp
  qed
next
  case (2 h now wd dirPath B path openErr statSize data fend w)
  from "2.prems"(1) have v: "visit h now (Inr cwd) dirPath B path
      (FileN openErr statSize data fend) w = (r, w')"
    using "2.prems"(2) by simp
  from visit_descendant [OF "2.prems"(3,4,5,6,7,8) v] show ?case by simp
next
  case (3 h now wd dirPath B path e w)
  from "3.prems"(1) have v: "visit h now (Inr cwd) dirPath B path (Failing e) w = (r, w')"
    using "3.prems"(2) by simp
  from visit_descendant [OF "3.prems"(3,4,5,6,7,8) v] show ?case by simp
next
  case (4 h now wd dirPath B path w)
  then show ?case by simp
next
  case (5 h now wd dirPath B path name n es w)
  let ?nm = "\<lambda>ns. ToSlash h (Join h (Base h B) (join_with (Separator h) ns))"
  have vn: "valid_name h name" and vnode: "valid_node h n" and ves: "valid_entries h es"
    using "5.prems"(8) by simp_all
  obtain A' where A': "Abs h (Inr cwd) (Join h path name) = Inr A'"
    using Abs_rooted [OF "5.prems"(3)] by blast
  have el: "clean_elems h A' = clean_elems h B @ (pre @ [name])"
    using Abs_Join [OF "5.prems"(3) vn "5.prems"(5) A'] "5.prems"(6) by simp
  have vp: "\<forall>x \<in> set (pre @ [name]). valid_name h x" using "5.prems"(7) vn by simp
  obtain r1 w1 where v: "walk h now wd dirPath B (Join h path name) n w = (r1, w1)" by force
  have "pre @ [name] \<noteq> []" by simp
  from "5.IH"(1) [OF v "5.prems"(2,3,4) A' el this vp vnode]
  obtain xs where xs0: "sent w1 = sent w @ xs \<and>
    prefix (map Filename xs) (map ?nm ((pre @ [name]) # node_paths (pre @ [name]) n)) \<and>
    (r1 = None \<longrightarrow>
       map Filename xs = map ?nm ((pre @ [name]) # node_paths (pre @ [name]) n))"
    by (rule exE)
  note xs = conjunct1 [OF xs0] conjunct1 [OF conjunct2 [OF xs0]]
    conjunct2 [OF conjunct2 [OF xs0]]
  show ?case
  proof (cases r1)
    case (Some e)
    with "5.prems"(1) v have w: "w' = w1" and r: "r \<noteq> None" by auto
    from step_fail [OF xs(1) xs(2) r, of "map ?nm (tree_paths pre es)"]
    show ?thesis unfolding w by simp
  next
    case None
    with "5.prems"(1) v have e: "walk_entries h now wd dirPath B path es w1 = (r, w')" by simp
    from "5.IH"(2) [OF v [symmetric] None e "5.prems"(2,3,4,5,6,7) ves]
    obtain ys where ys0: "sent w' = sent w1 @ ys \<and>
      prefix (map Filename ys) (map ?nm (tree_paths pre es)) \<and>
      (r = None \<longrightarrow> map Filename ys = map ?nm (tree_paths pre es))" by (rule exE)
    note ys = conjunct1 [OF ys0] conjunct1 [OF conjunct2 [OF ys0]]
      conjunct2 [OF conjunct2 [OF ys0]]
    have "map Filename xs = map ?nm ((pre @ [name]) # node_paths (pre @ [name]) n)"
      using xs(3) None by simp
    from step_compose [OF xs(1) ys(1) this ys(2) ys(3)] show ?thesis by simp
  qed
qed

subsection \<open>A sample run\<close>

lemma sendContent_empty: "sendContent now [] EOF tot w = (None, w)"
  by (subst sendContent.simps) (simp add: file_Read_def)

lemma sendContent_small:
  assumes "data \<noteq> []" and "length data \<le> chunkSize" and "room (wconn w) = None"
  shows "sendContent now data EOF tot w =
           (None, printProgress now (set_current (tot + int (length data))
                    (w\<lparr>wconn := (wconn w)\<lparr>outbuf := outbuf (wconn w) @ data\<rparr>\<rparr>)))"
  using assms
  by (subst sendContent.simps)
    (simp add: file_Read_def conn_Write_def Let_def sendContent_empty)

lemma sendFileInfo_logged_healthy:
  "room (wconn w) = None \<Longrightarrow>
   sendFileInfo_logged w fi =
     (None, w\<lparr>wconn := (wconn w)\<lparr>outbuf := outbuf (wconn w) @ frame_bytes fi\<rparr>,
              sent := sent w @ [fi]\<rparr>)"
  by (simp add: sendFileInfo_logged_def sendFileInfo_healthy)

lemma sample_paths:
  "Abs Unix (Inr ''/home/u'') ''dir'' = Inr ''/home/u/dir''"
  "Base Unix ''dir'' = ''dir''"
  "Base Unix ''/home/u/dir'' = ''dir''"
  "Join Unix ''dir'' ''a.txt'' = ''dir/a.txt''"
  "Join Unix ''dir'' ''sub'' = ''dir/sub''"
  "Join Unix ''dir/sub'' ''b'' = ''dir/sub/b''"
  "Abs Unix (Inr ''/home/u'') ''dir/a.txt'' = Inr ''/home/u/dir/a.txt''"
  "Abs Unix (Inr ''/home/u'') ''dir/sub'' = Inr ''/home/u/dir/sub''"
  "Abs Unix (Inr ''/home/u'') ''dir/sub/b'' = Inr ''/home/u/dir/sub/b''"
  "Rel Unix ''/home/u/dir'' ''/home/u/dir/a.txt'' = Inr ''a.txt''"
  "Rel Unix ''/home/u/dir'' ''/home/u/dir/sub'' = Inr ''sub''"
  "Rel Unix ''/home/u/dir'' ''/home/u/dir/sub/b'' = Inr ''sub/b''"
  "Join Unix ''dir'' ''sub/b'' = ''dir/sub/b''"
  by code_simp+

lemma sample_run: "fst (sendDirectoryRaw Unix clock0 (Inr ''/home/u'') world0 ''dir'' sample_dir) = None"
  by (simp add: sendDirectoryRaw_def sample_dir_def visit_def sendSingleFile_def
      sendFileInfo_logged_healthy sendContent_small sendContent_empty
      sample_paths world0_def conn0_def Let_def chunkSize_def ToSlash_def)

lemma sample_sent:
  "new_sent world0 (snd (sendDirectoryRaw Unix clock0 (Inr ''/home/u'') world0 ''dir'' sample_dir))
   = [\<lparr>Filename = ''dir'', FileSize = 0, IsDirectory = True\<rparr>,
      \<lparr>Filename = ''dir/a.txt'', FileSize = 3, IsDirectory = False\<rparr>,
      \<lparr>Filename = ''dir/sub'', FileSize = 0, IsDirectory = True\<rparr>,
      \<lparr>Filename = ''dir/sub/b'', FileSize = 0, IsDirectory = False\<rparr>]"
  by (simp add: sendDirectoryRaw_def sample_dir_def visit_def sendSingleFile_def
      sendFileInfo_logged_healthy sendContent_small sendContent_empty
      sample_paths world0_def conn0_def Let_def chunkSize_def new_sent_def ToSlash_def)

theorem directory_descriptors_size_zero_witness:
  "IsDirectory (new_sent world0
      (snd (sendDirectoryRaw Unix clock0 (Inr ''/home/u'') world0 ''dir'' sample_dir)) ! 2) \<and>
   FileSize (new_sent world0
      (snd (sendDirectoryRaw Unix clock0 (Inr ''/home/u'') world0 ''dir'' sample_dir)) ! 2) = 0"
proof -
  let ?run = "sendDirectoryRaw Unix clock0 (Inr ''/home/u'') world0 ''dir'' sample_dir"
  have "?run = (fst ?run, snd ?run)" by simp
  from directory_descriptors_size_zero [OF this]
  have "\<forall>fi \<in> set (new_sent world0 (snd ?run)). IsDirectory fi \<longrightarrow> FileSize fi = 0" by simp
  moreover have "new_sent world0 (snd ?run) ! 2 \<in> set (new_sent world0 (snd ?run))"
    by (simp add: sample_sent)
  moreover have "IsDirectory (new_sent world0 (snd ?run) ! 2)" by (simp add: sample_sent)
  ultimately show ?thesis by blast
qed

lemma tree_paths_valid:
  "valid_node h n \<Longrightarrow> \<forall>x \<in> set pre. valid_name h x \<Longrightarrow>
     \<forall>ns \<in> set (node_paths pre n). ns \<noteq> [] \<and> (\<forall>x \<in> set ns. valid_name h x)"
  "valid_entries h es \<Longrightarrow> \<forall>x \<in> set pre. valid_name h x \<Longrightarrow>
     \<forall>ns \<in> set (tree_paths pre es). ns \<noteq> [] \<and> (\<forall>x \<in> set ns. valid_name h x)"
proof (induction pre n and pre es rule: node_paths_tree_paths.induct)
  case (1 pre rd es)
  from "1.prems"(1) have "valid_entries h es" by simp
  from "1.IH" [OF this "1.prems"(2)] show ?case by simp
next
  case (2 pre openErr statSize data fend)
  show ?case by simp
next
  case (3 pre e)
  show ?case by simp
next
  case (4 pre)
  show ?case by simp
next
  case (5 pre name n es)
  have vn: "valid_name h name" "valid_node h n" "valid_entries h es"
    using "5.prems"(1) by simp_all
  have v: "\<forall>x \<in> set (pre @ [name]). valid_name h x" using "5.prems"(2) vn(1) by simp
  note a = "5.IH"(1) [OF vn(2) v] and b = "5.IH"(2) [OF vn(3) "5.prems"(2)]
  have c: "pre @ [name] \<noteq> [] \<and> (\<forall>x \<in> set (pre @ [name]). valid_name h x)"
    using v by simp
  show ?case
  proof
    fix ns assume "ns \<in> set (tree_paths pre (ECons name n es))"
    then consider "ns = pre @ [name]" | "ns \<in> set (node_paths (pre @ [name]) n)"
      | "ns \<in> set (tree_paths pre es)" by auto
    then show "ns \<noteq> [] \<and> (\<forall>x \<in> set ns. valid_name h x)"
    proof cases
      case 1
      show ?thesis unfolding 1 by (rule c)
    next
      case 2
      from bspec [OF a 2] show ?thesis .
    next
      case 3
      from bspec [OF b 3] show ?thesis .
    qed
  qed
qed

text \<open>
  C8. Let a directory be sent from a working directory given by an absolute path, and let
  the names of all entries below it be names of the host (not empty, not \<open>.\<close> or
  \<open>..\<close>, without a separator). Then, on either host convention, the descriptors that are
  sent are named as follows: the root marker has the base name of the given path, and every
  descendant, in the order of the walk, has the name that joins the base name of the
  absolute path of the directory with the names that lead from the directory to the
  descendant, with forward slashes for the separators. Unless the directory is the root of
  the file system, this name is the base name and the names that lead to the descendant,
  separated by single forward slashes. A run that fails has sent a prefix of this list.
\<close>

theorem descendant_names:
  assumes "is_rooted h cwd" and "Abs h (Inr cwd) dirPath = Inr absDirPath"
    and "valid_entries h es"
    and "sendDirectoryRaw h now (Inr cwd) w dirPath (DirN rd es) = (r, w')"
  shows "prefix (map Filename (new_sent w w'))
           (Base h dirPath #
              map (\<lambda>ns. ToSlash h (Join h (Base h absDirPath) (join_with (Separator h) ns)))
                (tree_paths [] es)) \<and>
         (r = None \<longrightarrow>
            map Filename (new_sent w w') =
              Base h dirPath #
                map (\<lambda>ns. ToSlash h (Join h (Base h absDirPath) (join_with (Separator h) ns)))
                  (tree_paths [] es)) \<and>
         (clean_elems h absDirPath \<noteq> [] \<longrightarrow>
            (\<forall>ns \<in> set (tree_paths [] es).
               ToSlash h (Join h (Base h absDirPath) (join_with (Separator h) ns)) =
               join_with CHR ''/'' (Base h absDirPath # ns)))"
proof -
  let ?nm = "\<lambda>ns. ToSlash h (Join h (Base h absDirPath) (join_with (Separator h) ns))"
  let ?fi = "\<lparr>Filename = Base h dirPath, FileSize = 0, IsDirectory = True\<rparr>"
  obtain r1 w1 where s1: "sendFileInfo_logged w ?fi = (r1, w1)" by force
  then have w1: "sent w1 = sent w @ [?fi]" by (rule sent_sendFileInfo_logged)
  have "\<exists>xs. sent w' = sent w @ xs \<and>
      prefix (map Filename xs) ([Base h dirPath] @ map ?nm (tree_paths [] es)) \<and>
      (r = None \<longrightarrow> map Filename xs = [Base h dirPath] @ map ?nm (tree_paths [] es))"
  proof (cases "r1 = None \<and> rd = None")
    case False
    have "w' = w1 \<and> r \<noteq> None"
    proof (cases r1)
      case (Some e)
      with assms(2,4) s1 show ?thesis by (auto simp: sendDirectoryRaw_def)
    next
      case None
      with False obtain e where "rd = Some e" by auto
      with assms(2,4) s1 None show ?thesis by (auto simp: sendDirectoryRaw_def visit_def)
    qed
    then have w: "w' = w1" and r: "r \<noteq> None" by simp_all
    have "prefix (map Filename [?fi]) [Base h dirPath]" by simp
    from step_fail [OF w1 this r, of "map ?nm (tree_paths [] es)"] show ?thesis
      unfolding w .
  next
    case True
    then have "walk_entries h now (Inr cwd) dirPath absDirPath dirPath es w1 = (r, w')"
      using assms(2,4) s1 by (simp add: sendDirectoryRaw_def visit_def)
    then have "\<exists>ys. sent w' = sent w1 @ ys \<and>
      prefix (map Filename ys) (map ?nm (tree_paths [] es)) \<and>
      (r = None \<longrightarrow> map Filename ys = map ?nm (tree_paths [] es))"
      by (rule walk_entries_names [OF _ refl assms(1,2,2) _ _ assms(3)]) simp_all
    then obtain ys where ys0: "sent w' = sent w1 @ ys \<and>
      prefix (map Filename ys) (map ?nm (tree_paths [] es)) \<and>
      (r = None \<longrightarrow> map Filename ys = map ?nm (tree_paths [] es))"
      by (rule exE)
    note ys = conjunct1 [OF ys0] conjunct1 [OF conjunct2 [OF ys0]]
      conjunct2 [OF conjunct2 [OF ys0]]
    have "map Filename [?fi] = [Base h dirPath]" by simp
    from step_compose [OF w1 ys(1) this ys(2) ys(3)] show ?thesis .
  qed
  then obtain xs where xs0: "sent w' = sent w @ xs \<and>
      prefix (map Filename xs) ([Base h dirPath] @ map ?nm (tree_paths [] es)) \<and>
      (r = None \<longrightarrow> map Filename xs = [Base h dirPath] @ map ?nm (tree_paths [] es))"
    by (rule exE)
  then have n: "new_sent w w' = xs" by (simp add: new_sent_def)
  have "\<forall>ns \<in> set (tree_paths [] es). ?nm ns = join_with CHR ''/'' (Base h absDirPath # ns)"
    if nonroot: "clean_elems h absDirPath \<noteq> []"
  proof
    fix ns assume "ns \<in> set (tree_paths [] es)"
    then have v: "ns \<noteq> []" "\<forall>x \<in> set ns. valid_name h x"
      using tree_paths_valid(2) [OF assms(3), of "[]"] by auto
    from Abs_rooted [OF assms(1), of dirPath] assms(2)
    have Bc: "is_rooted h absDirPath" "Clean h absDirPath = absDirPath" by auto
    show "?nm ns = join_with CHR ''/'' (Base h absDirPath # ns)"
      using Bc(2) Bc(1) nonroot v(2) v(1) by (rule descendant_name)
  qed
  with xs0 n show ?thesis by simp
qed

lemma sample_paths_windows:
  "Abs Windows (Inr [CHR 0x5C, CHR ''u'']) ''dir'' = Inr [CHR 0x5C, CHR ''u'', CHR 0x5C, CHR ''d'', CHR ''i'', CHR ''r'']"
  "Base Windows ''dir'' = ''dir''"
  "Base Windows [CHR 0x5C, CHR ''u'', CHR 0x5C, CHR ''d'', CHR ''i'', CHR ''r''] = ''dir''"
  "Join Windows ''dir'' ''a.txt'' = [CHR ''d'', CHR ''i'', CHR ''r'', CHR 0x5C, CHR ''a'', CHR ''.'', CHR ''t'', CHR ''x'', CHR ''t'']"
  "Join Windows ''dir'' ''sub'' = [CHR ''d'', CHR ''i'', CHR ''r'', CHR 0x5C, CHR ''s'', CHR ''u'', CHR ''b'']"
  "Join Windows [CHR ''d'', CHR ''i'', CHR ''r'', CHR 0x5C, CHR ''s'', CHR ''u'', CHR ''b''] ''b'' = [CHR ''d'', CHR ''i'', CHR ''r'', CHR 0x5C, CHR ''s'', CHR ''u'', CHR ''b'', CHR 0x5C, CHR ''b'']"
  "Abs Windows (Inr [CHR 0x5C, CHR ''u'']) [CHR ''d'', CHR ''i'', CHR ''r'', CHR 0x5C, CHR ''a'', CHR ''.'', CHR ''t'', CHR ''x'', CHR ''t''] = Inr [CHR 0x5C, CHR ''u'', CHR 0x5C, CHR ''d'', CHR ''i'', CHR ''r'', CHR 0x5C, CHR ''a'', CHR ''.'', CHR ''t'', CHR ''x'', CHR ''t'']"
  "Abs Windows (Inr [CHR 0x5C, CHR ''u'']) [CHR ''d'', CHR ''i'', CHR ''r'', CHR 0x5C, CHR ''s'', CHR ''u'', CHR ''b''] = Inr [CHR 0x5C, CHR ''u'', CHR 0x5C, CHR ''d'', CHR ''i'', CHR ''r'', CHR 0x5C, CHR ''s'', CHR ''u'', CHR ''b'']"
  "Abs Windows (Inr [CHR 0x5C, CHR ''u'']) [CHR ''d'', CHR ''i'', CHR ''r'', CHR 0x5C, CHR ''s'', CHR ''u'', CHR ''b'', CHR 0x5C, CHR ''b''] = Inr [CHR 0x5C, CHR ''u'', CHR 0x5C, CHR ''d'', CHR ''i'', CHR ''r'', CHR 0x5C, CHR ''s'', CHR ''u'', CHR ''b'', CHR 0x5C, CHR ''b'']"
  "Rel Windows [CHR 0x5C, CHR ''u'', CHR 0x5C, CHR ''d'', CHR ''i'', CHR ''r''] [CHR 0x5C, CHR ''u'', CHR 0x5C, CHR ''d'', CHR ''i'', CHR ''r'', CHR 0x5C, CHR ''a'', CHR ''.'', CHR ''t'', CHR ''x'', CHR ''t''] = Inr ''a.txt''"
  "Rel Windows [CHR 0x5C, CHR ''u'', CHR 0x5C, CHR ''d'', CHR ''i'', CHR ''r''] [CHR 0x5C, CHR ''u'', CHR 0x5C, CHR ''d'', CHR ''i'', CHR ''r'', CHR 0x5C, CHR ''s'', CHR ''u'', CHR ''b''] = Inr ''sub''"
  "Rel Windows [CHR 0x5C, CHR ''u'', CHR 0x5C, CHR ''d'', CHR ''i'', CHR ''r''] [CHR 0x5C, CHR ''u'', CHR 0x5C, CHR ''d'', CHR ''i'', CHR ''r'', CHR 0x5C, CHR ''s'', CHR ''u'', CHR ''b'', CHR 0x5C, CHR ''b''] = Inr [CHR ''s'', CHR ''u'', CHR ''b'', CHR 0x5C, CHR ''b'']"
  "Join Windows ''dir'' [CHR ''s'', CHR ''u'', CHR ''b'', CHR 0x5C, CHR ''b''] = [CHR ''d'', CHR ''i'', CHR ''r'', CHR 0x5C, CHR ''s'', CHR ''u'', CHR ''b'', CHR 0x5C, CHR ''b'']"
  "Base Windows ''dir/a.txt'' = ''a.txt''"
  "Base Windows ''dir/sub/b'' = ''b''"
  by code_simp+

lemma sample_run_windows:
  "fst (sendDirectoryRaw Windows clock0 (Inr [CHR 0x5C, CHR ''u'']) world0 ''dir'' sample_dir) = None"
  by (simp add: sendDirectoryRaw_def sample_dir_def visit_def sendSingleFile_def
      sendFileInfo_logged_healthy sendContent_small sendContent_empty
      sample_paths_windows world0_def conn0_def Let_def chunkSize_def ToSlash_def)

theorem descendant_names_witness:
  "fst (sendDirectoryRaw Unix clock0 (Inr ''/home/u'') world0 ''dir'' sample_dir) = None \<and>
   map Filename (new_sent world0
      (snd (sendDirectoryRaw Unix clock0 (Inr ''/home/u'') world0 ''dir'' sample_dir)))
   = [''dir'', ''dir/a.txt'', ''dir/sub'', ''dir/sub/b''] \<and>
   fst (sendDirectoryRaw Windows clock0 (Inr [CHR 0x5C, CHR ''u'']) world0 ''dir'' sample_dir) = None \<and>
   map Filename (new_sent world0
      (snd (sendDirectoryRaw Windows clock0 (Inr [CHR 0x5C, CHR ''u'']) world0 ''dir'' sample_dir)))
   = [''dir'', ''dir/a.txt'', ''dir/sub'', ''dir/sub/b'']"
proof -
  let ?es = "ECons ''a.txt'' (FileN None 3 [1, 2, 3] EOF)
       (ECons ''sub'' (DirN None (ECons ''b'' (FileN None 0 [] EOF) ENil)) ENil)"
  have unix: "fst (sendDirectoryRaw Unix clock0 (Inr ''/home/u'') world0 ''dir'' (DirN None ?es))
        = None \<and>
      map Filename (new_sent world0
        (snd (sendDirectoryRaw Unix clock0 (Inr ''/home/u'') world0 ''dir'' (DirN None ?es))))
      = [''dir'', ''dir/a.txt'', ''dir/sub'', ''dir/sub/b'']"
  proof -
    let ?run = "sendDirectoryRaw Unix clock0 (Inr ''/home/u'') world0 ''dir'' (DirN None ?es)"
    have r: "is_rooted Unix ''/home/u''" by (simp add: is_rooted_def)
    have e: "clean_elems Unix ''/home/u/dir'' \<noteq> []" by code_simp
    have v: "valid_entries Unix ?es" by (simp add: valid_name_def)
    have run: "?run = (fst ?run, snd ?run)" by simp
    have ok: "fst ?run = None" using sample_run by (simp add: sample_dir_def)
    from descendant_names [OF r sample_paths(1) v run] ok e
    have "map Filename (new_sent world0 (snd ?run)) =
        Base Unix ''dir'' #
          map (\<lambda>ns. ToSlash Unix (Join Unix (Base Unix ''/home/u/dir'')
                       (join_with (Separator Unix) ns))) (tree_paths [] ?es)"
      and "\<forall>ns \<in> set (tree_paths [] ?es).
          ToSlash Unix (Join Unix (Base Unix ''/home/u/dir'') (join_with (Separator Unix) ns)) =
          join_with CHR ''/'' (Base Unix ''/home/u/dir'' # ns)"
      by simp_all
    then have "map Filename (new_sent world0 (snd ?run)) =
        Base Unix ''dir'' #
          map (\<lambda>ns. join_with CHR ''/'' (Base Unix ''/home/u/dir'' # ns)) (tree_paths [] ?es)"
      by simp
    then show ?thesis using ok by (simp add: sample_paths)
  qed
  have windows: "fst (sendDirectoryRaw Windows clock0 (Inr [CHR 0x5C, CHR ''u'']) world0 ''dir'' (DirN None ?es))
        = None \<and>
      map Filename (new_sent world0
        (snd (sendDirectoryRaw Windows clock0 (Inr [CHR 0x5C, CHR ''u'']) world0 ''dir'' (DirN None ?es))))
      = [''dir'', ''dir/a.txt'', ''dir/sub'', ''dir/sub/b'']"
  proof -
    let ?run = "sendDirectoryRaw Windows clock0 (Inr [CHR 0x5C, CHR ''u'']) world0 ''dir'' (DirN None ?es)"
    have r: "is_rooted Windows [CHR 0x5C, CHR ''u'']" by (simp add: is_rooted_def)
    have e: "clean_elems Windows [CHR 0x5C, CHR ''u'', CHR 0x5C, CHR ''d'', CHR ''i'', CHR ''r''] \<noteq> []" by code_simp
    have v: "valid_entries Windows ?es" by (simp add: valid_name_def)
    have run: "?run = (fst ?run, snd ?run)" by simp
    have ok: "fst ?run = None" using sample_run_windows by (simp add: sample_dir_def)
    from descendant_names [OF r sample_paths_windows(1) v run] ok e
    have "map Filename (new_sent world0 (snd ?run)) =
        Base Windows ''dir'' #
          map (\<lambda>ns. ToSlash Windows (Join Windows (Base Windows [CHR 0x5C, CHR ''u'', CHR 0x5C, CHR ''d'', CHR ''i'', CHR ''r''])
                       (join_with (Separator Windows) ns))) (tree_paths [] ?es)"
      and "\<forall>ns \<in> set (tree_paths [] ?es).
          ToSlash Windows (Join Windows (Base Windows [CHR 0x5C, CHR ''u'', CHR 0x5C, CHR ''d'', CHR ''i'', CHR ''r'']) (join_with (Separator Windows) ns)) =
          join_with CHR ''/'' (Base Windows [CHR 0x5C, CHR ''u'', CHR 0x5C, CHR ''d'', CHR ''i'', CHR ''r''] # ns)"
      by simp_all
    then have "map Filename (new_sent world0 (snd ?run)) =
        Base Windows ''dir'' #
          map (\<lambda>ns. join_with CHR ''/'' (Base Windows [CHR 0x5C, CHR ''u'', CHR 0x5C, CHR ''d'', CHR ''i'', CHR ''r''] # ns)) (tree_paths [] ?es)"
      by simp
    then show ?thesis using ok by (simp add: sample_paths_windows)
  qed
  from unix windows show ?thesis by (simp only: sample_dir_def)
qed

section \<open>Properties of the progress accounting\<close>

subsection \<open>The log of the progress tracker\<close>

lemma observations_append [simp]:
  "observations (a @ b) = observations a @ observations b"
  by (simp add: observations_def)

lemma observations_Nil [simp]: "observations [] = []"
  by (simp add: observations_def)

lemma log_set_current [simp]: "log (set_current v w) = log w"
  by (simp add: set_current_def)

lemma pw_set_current [simp]:
  "total (pw (set_current v w)) = total (pw w)" "current (pw (set_current v w)) = v"
  by (simp_all add: set_current_def)

lemma NewProgressWriter_fields [simp]:
  "log (NewProgressWriter now t n w) = log w" "total (pw (NewProgressWriter now t n w)) = t"
  by (simp_all add: NewProgressWriter_def)

lemma printProgress_log:
  "\<exists>evs. log (printProgress now w) = log w @ evs \<and> observations evs = [current (pw w)]"
  by (simp add: printProgress_def Let_def set_current_def observations_def)

lemma printProgress_total [simp]: "total (pw (printProgress now w)) = total (pw w)"
  by (simp add: printProgress_def Let_def set_current_def)

lemma printProgress_current_final:
  "current (pw w) = total (pw w) \<Longrightarrow> current (pw (printProgress now w)) = total (pw w)"
  by (simp add: printProgress_def Let_def set_current_def)

lemma Finalize_log:
  "log (Finalize now w) =
     log w @ [Final (if total (pw w) > 0 then total (pw w) else current (pw w))]"
  by (simp add: Finalize_def Let_def set_current_def)

text \<open>The end of an item: the last call of \<open>printProgress\<close> and \<open>Finalize\<close>.\<close>

lemma final_observations:
  assumes "log w2 = log w @ evs" and "total (pw w2) = t"
  shows "\<exists>evs'. log (Finalize now (printProgress now (set_current t w2))) = log w @ evs' \<and>
           observations evs' = observations evs @ [t, t]"
proof -
  let ?w3 = "printProgress now (set_current t w2)"
  obtain e1 where e1: "log ?w3 = log (set_current t w2) @ e1"
    "observations e1 = [current (pw (set_current t w2))]"
    using printProgress_log by blast
  have c: "current (pw ?w3) = t"
    using printProgress_current_final [of "set_current t w2" now] assms(2) by simp
  have t: "total (pw ?w3) = t" using assms(2) by simp
  have "log (Finalize now ?w3) = log w @ (evs @ e1 @ [Final t])"
    using e1(1) assms(1) c t by (simp add: Finalize_log)
  moreover have "observations (evs @ e1 @ [Final t]) = observations evs @ [t, t]"
    using e1(2) by (simp add: observations_def)
  ultimately show ?thesis by blast
qed

lemma sorted_final:
  assumes "sorted vs" and "\<forall>v \<in> set vs. v \<le> t"
  shows "sorted (vs @ [t, t]) \<and> vs @ [t, t] \<noteq> [] \<and> last (vs @ [t, t]) = t"
  using assms by (simp add: sorted_append)

lemma log_step:
  assumes "log w1 = log w @ e1" and "observations e1 = [t1]"
    and "log w' = log w1 @ e2" and "sorted (observations e2)"
    and "\<forall>v \<in> set (observations e2). t1 \<le> v \<and> v \<le> m"
    and "lo \<le> t1" and "t1 \<le> m"
  shows "\<exists>evs. log w' = log w @ evs \<and> sorted (observations evs) \<and>
           (\<forall>v \<in> set (observations evs). lo \<le> v \<and> v \<le> m)"
proof -
  have "log w' = log w @ (e1 @ e2)" using assms(1,3) by simp
  moreover have "sorted (observations (e1 @ e2))"
    using assms(2,4,5) by simp
  moreover have "\<forall>v \<in> set (observations (e1 @ e2)). lo \<le> v \<and> v \<le> m"
    using assms(2,5,6,7) by auto
  ultimately show ?thesis by blast
qed

lemma sendContent_log:
  "sendContent now data fend tot w = (r, w') \<Longrightarrow>
   \<exists>evs. log w' = log w @ evs \<and> sorted (observations evs) \<and>
     (\<forall>v \<in> set (observations evs). tot \<le> v \<and> v \<le> tot + int (length data)) \<and>
     total (pw w') = total (pw w)"
proof (induction now data fend tot w arbitrary: r w' rule: sendContent.induct)
  case (1 now data fend totalSent w)
  show ?case
  proof (cases "data = []")
    case True
    with "1.prems" have "w' = w"
      by (subst (asm) sendContent.simps) (auto simp: file_Read_def split: if_splits)
    then show ?thesis by simp
  next
    case False
    define buf where "buf = take chunkSize data"
    have fr: "file_Read data fend = ((buf, None), drop chunkSize data)"
      using False by (simp add: file_Read_def buf_def)
    have bl: "length buf \<noteq> 0" using False by (simp add: buf_def chunkSize_def)
    obtain rc c' where cw: "conn_Write (wconn w) buf = (rc, c')" by force
    show ?thesis
    proof (cases rc)
      case (Some e)
      with "1.prems" fr bl cw have "w' = w\<lparr>wconn := c'\<rparr>"
        by (subst (asm) sendContent.simps) simp
      then show ?thesis by simp
    next
      case None
      let ?t1 = "totalSent + int (length buf)"
      let ?w1 = "printProgress now (set_current ?t1 (w\<lparr>wconn := c'\<rparr>))"
      have rec: "sendContent now (drop chunkSize data) fend ?t1 ?w1 = (r, w')"
        using "1.prems" fr bl cw None by (subst (asm) sendContent.simps) (simp add: Let_def)
      have "\<exists>evs. log w' = log ?w1 @ evs \<and> sorted (observations evs) \<and>
          (\<forall>v \<in> set (observations evs). ?t1 \<le> v \<and> v \<le> ?t1 + int (length (drop chunkSize data))) \<and>
          total (pw w') = total (pw ?w1)"
        by (rule "1.IH" [OF fr [symmetric] refl _ bl cw [symmetric] None refl refl _ rec])
          simp_all
      then obtain e2 where e2: "log w' = log ?w1 @ e2" "sorted (observations e2)"
        "\<forall>v \<in> set (observations e2). ?t1 \<le> v \<and> v \<le> ?t1 + int (length (drop chunkSize data))"
        "total (pw w') = total (pw ?w1)" by blast
      obtain e1 where e1: "log ?w1 = log (set_current ?t1 (w\<lparr>wconn := c'\<rparr>)) @ e1"
        "observations e1 = [current (pw (set_current ?t1 (w\<lparr>wconn := c'\<rparr>)))]"
        using printProgress_log by blast
      have len: "int (length buf) + int (length (drop chunkSize data)) = int (length data)"
        by (simp add: buf_def)
      have b: "\<forall>v \<in> set (observations e2). ?t1 \<le> v \<and> v \<le> totalSent + int (length data)"
        using e2(3) len by auto
      have "\<exists>evs. log w' = log w @ evs \<and> sorted (observations evs) \<and>
           (\<forall>v \<in> set (observations evs). totalSent \<le> v \<and> v \<le> totalSent + int (length data))"
        using e1 e2(1,2) b len
        by (intro log_step [where ?w1.0 = ?w1 and ?e1.0 = e1 and ?e2.0 = e2 and ?t1.0 = ?t1])
          simp_all
      then show ?thesis using e2(4) by (simp add: set_current_def)
    qed
  qed
qed

lemma ReadFull_length: "ReadFull c n = ((buf, err), c') \<Longrightarrow> length buf \<le> n"
  by (auto simp: ReadFull_def split: if_splits)

lemma receiveContent_log:
  assumes "receiveContent h now p fileSize tot w = Some res"
  shows "fst res = None \<longrightarrow>
           (\<exists>evs. log (snd res) = log w @ evs \<and> sorted (observations evs) \<and>
              (\<forall>v \<in> set (observations evs). tot \<le> v \<and> v \<le> fileSize) \<and>
              total (pw (snd res)) = total (pw w))"
proof (rule receiveContent.raw_induct
    [where P = "\<lambda>h now p fileSize tot w res. fst res = None \<longrightarrow>
           (\<exists>evs. log (snd res) = log w @ evs \<and> sorted (observations evs) \<and>
              (\<forall>v \<in> set (observations evs). tot \<le> v \<and> v \<le> fileSize) \<and>
              total (pw (snd res)) = total (pw w))", OF _ assms], goal_cases)
  case (1 rc h now p fileSize tot w res)
  note ih = 1(1) and step = 1(2)
  show ?case
  proof (cases "tot < fileSize")
    case False
    with step have "res = (None, w)" by simp
    then show ?thesis by simp
  next
    case True
    define readSize where
      "readSize = (if fileSize - tot < int chunkSize then nat (fileSize - tot) else chunkSize)"
    have rs: "int readSize \<le> fileSize - tot" using True by (simp add: readSize_def)
    obtain buf err c' where rf: "ReadFull (wconn w) readSize = ((buf, err), c')"
      by (metis prod.exhaust)
    have bl: "int (length buf) \<le> fileSize - tot"
      using ReadFull_length [OF rf] rs by linarith
    show ?thesis
    proof (cases "err \<noteq> None \<and> err \<noteq> Some EOF \<and> err \<noteq> Some ErrUnexpectedEOF")
      case e: True
      with step True rf have "fst res \<noteq> None"
        by (auto simp: Let_def readSize_def [symmetric])
      then show ?thesis by auto
    next
      case e0: False
      then consider "err = None" | "err = Some EOF" | "err = Some ErrUnexpectedEOF" by auto
      then have body: "(case file_Write h (disk w) p buf of
            (None, fs') \<Rightarrow>
              (let totalReceived' = tot + int (length buf);
                   w' = printProgress now
                          (set_current totalReceived' (w\<lparr>wconn := c', disk := fs'\<rparr>))
               in if fileSize \<le> totalReceived' then Some (None, w')
                  else rc h now p fileSize totalReceived' w')
          | (Some e, fs') \<Rightarrow> Some (Some e, w\<lparr>wconn := c', disk := fs'\<rparr>)) = Some res"
        using step True rf by cases (simp_all add: Let_def readSize_def [symmetric])
      obtain rw fs' where fw: "file_Write h (disk w) p buf = (rw, fs')" by force
      show ?thesis
      proof (cases rw)
        case (Some x)
        with body fw have "fst res \<noteq> None" by auto
        then show ?thesis by auto
      next
        case None
        let ?t1 = "tot + int (length buf)"
        let ?w0 = "set_current ?t1 (w\<lparr>wconn := c', disk := fs'\<rparr>)"
        let ?w1 = "printProgress now ?w0"
        obtain e1 where e1: "log ?w1 = log ?w0 @ e1" "observations e1 = [current (pw ?w0)]"
          using printProgress_log by blast
        have l1: "log ?w1 = log w @ e1" using e1(1) by simp
        have o1: "observations e1 = [?t1]" using e1(2) by simp
        have t1: "total (pw ?w1) = total (pw w)" by (simp add: set_current_def)
        show ?thesis
        proof (cases "fileSize \<le> ?t1")
          case f: True
          with body fw None have "res = (None, ?w1)" by (simp add: Let_def)
          moreover have "sorted (observations e1) \<and>
              (\<forall>v \<in> set (observations e1). tot \<le> v \<and> v \<le> fileSize)"
            using o1 bl by simp
          ultimately show ?thesis using l1 t1 by auto
        next
          case f: False
          with body fw None have "rc h now p fileSize ?t1 ?w1 = Some res"
            by (simp add: Let_def)
          note i = ih [OF this]
          show ?thesis
          proof
            assume "fst res = None"
            with i obtain e2 where e2: "log (snd res) = log ?w1 @ e2"
              "sorted (observations e2)"
              "\<forall>v \<in> set (observations e2). ?t1 \<le> v \<and> v \<le> fileSize"
              "total (pw (snd res)) = total (pw ?w1)" by blast
            have "\<exists>evs. log (snd res) = log w @ evs \<and> sorted (observations evs) \<and>
                (\<forall>v \<in> set (observations evs). tot \<le> v \<and> v \<le> fileSize)"
              using l1 o1 e2(1,2,3) bl
              by (intro log_step [where ?w1.0 = ?w1 and ?e1.0 = e1 and ?e2.0 = e2
                    and ?t1.0 = ?t1]) simp_all
            then show "\<exists>evs. log (snd res) = log w @ evs \<and> sorted (observations evs) \<and>
                (\<forall>v \<in> set (observations evs). tot \<le> v \<and> v \<le> fileSize) \<and>
                total (pw (snd res)) = total (pw w)"
              using e2(4) t1 by auto
          qed
        qed
      qed
    qed
  qed
qed

lemma log_sendFileInfo_logged:
  "sendFileInfo_logged w fi = (r, w') \<Longrightarrow> log w' = log w \<and> pw w' = pw w"
  by (auto simp: sendFileInfo_logged_def split: prod.splits)

lemma new_log_append: "log w' = log w @ evs \<Longrightarrow> new_log w w' = evs"
  by (simp add: new_log_def)

lemma sendSingleFile_progress:
  assumes "sendSingleFile h now w None statSize data fend name = (None, w')"
    and "int (length data) \<le> sint statSize"
  shows "sorted (observations (new_log w w')) \<and> observations (new_log w w') \<noteq> [] \<and>
         last (observations (new_log w w')) = sint statSize"
proof -
  let ?fi = "\<lparr>Filename = name, FileSize = statSize, IsDirectory = False\<rparr>"
  obtain r1 w1 where s1: "sendFileInfo_logged w ?fi = (r1, w1)" by force
  then have l1: "log w1 = log w" using log_sendFileInfo_logged by blast
  let ?w2 = "NewProgressWriter now (sint statSize) (Base h name) w1"
  obtain r3 w3 where s3: "sendContent now data fend 0 ?w2 = (r3, w3)" by force
  from assms(1) s1 s3 have r1: "r1 = None" and r3: "r3 = None"
    and w': "w' = Finalize now (printProgress now (set_current (sint statSize) w3))"
    by (auto simp: sendSingleFile_def Let_def split: option.splits)
  from sendContent_log [OF s3] obtain evs where evs: "log w3 = log ?w2 @ evs"
    "sorted (observations evs)"
    "\<forall>v \<in> set (observations evs). 0 \<le> v \<and> v \<le> 0 + int (length data)"
    "total (pw w3) = total (pw ?w2)" by blast
  have l3: "log w3 = log w @ evs" using evs(1) l1 by simp
  have t3: "total (pw w3) = sint statSize" using evs(4) by simp
  from final_observations [OF l3 t3, of now] obtain evs' where
    f: "log w' = log w @ evs'" "observations evs' = observations evs @ [sint statSize, sint statSize]"
    unfolding w' by blast
  have "\<forall>v \<in> set (observations evs). v \<le> sint statSize" using evs(3) assms(2) by auto
  from sorted_final [OF evs(2) this] show ?thesis
    using f by (simp add: new_log_append [OF f(1)])
qed

lemma receive_progress:
  assumes "receiveContent h now p fileSize 0 (NewProgressWriter now fileSize nm v) = Some (None, v')"
  shows "sorted (observations (new_log v (Finalize now (printProgress now (set_current fileSize v'))))) \<and>
         observations (new_log v (Finalize now (printProgress now (set_current fileSize v')))) \<noteq> [] \<and>
         last (observations (new_log v (Finalize now (printProgress now (set_current fileSize v')))))
           = fileSize"
proof -
  from receiveContent_log [OF assms] obtain evs where
    evs: "log v' = log (NewProgressWriter now fileSize nm v) @ evs" "sorted (observations evs)"
    "\<forall>v \<in> set (observations evs). 0 \<le> v \<and> v \<le> fileSize"
    "total (pw v') = total (pw (NewProgressWriter now fileSize nm v))" by auto
  have l: "log v' = log v @ evs" using evs(1) by simp
  have t: "total (pw v') = fileSize" using evs(4) by simp
  from final_observations [OF l t, of now] obtain evs' where
    f: "log (Finalize now (printProgress now (set_current fileSize v'))) = log v @ evs'"
    "observations evs' = observations evs @ [fileSize, fileSize]" by blast
  have "\<forall>v \<in> set (observations evs). v \<le> fileSize" using evs(3) by auto
  from sorted_final [OF evs(2) this] show ?thesis
    using f by (simp add: new_log_append [OF f(1)])
qed

text \<open>
  C6 (as amended). For the transfer of one item that completes, the values of \<open>current\<close>
  at the successive observations (the calls of \<open>printProgress\<close> and the summary of
  \<open>Finalize\<close>) never decrease and the last one is the declared size: on the sending side
  when the file yields no more bytes than the size that was declared for it, on the
  receiving side always.
\<close>

theorem progress_monotone:
  "(sendSingleFile h now w None statSize data fend name = (None, w') \<and>
    int (length data) \<le> sint statSize \<longrightarrow>
      sorted (observations (new_log w w')) \<and> observations (new_log w w') \<noteq> [] \<and>
      last (observations (new_log w w')) = sint statSize) \<and>
   (receiveContent h now p fileSize 0 (NewProgressWriter now fileSize nm v) = Some (None, v') \<longrightarrow>
      sorted (observations
        (new_log v (Finalize now (printProgress now (set_current fileSize v'))))) \<and>
      observations (new_log v (Finalize now (printProgress now (set_current fileSize v')))) \<noteq> [] \<and>
      last (observations
        (new_log v (Finalize now (printProgress now (set_current fileSize v'))))) = fileSize)"
  using sendSingleFile_progress receive_progress by blast

lemma send_small_ok:
  assumes "data \<noteq> []" and "length data \<le> chunkSize" and "room (wconn w) = None"
  shows "fst (sendSingleFile h now w None statSize data EOF name) = None"
  using assms
  by (simp add: sendSingleFile_def sendFileInfo_logged_healthy sendContent_small Let_def)

text \<open>
  The claim C6 as it was stated fails on the sending side: a file whose \<open>Stat\<close> reports
  the size 0 and that yields 3 bytes is sent with the observed values 3, 0, 0 (the progress
  lines show 3 and then 0 bytes).
\<close>

theorem progress_decreases_on_sender:
  "fst (sendSingleFile Unix clock0 world0 None 0 [1, 2, 3] EOF ''x'') = None \<and>
   new_log world0 (snd (sendSingleFile Unix clock0 world0 None 0 [1, 2, 3] EOF ''x''))
     = [Observe 3, Display 3, Observe 0, Display 0, Final 0] \<and>
   \<not> sorted (observations
        (new_log world0 (snd (sendSingleFile Unix clock0 world0 None 0 [1, 2, 3] EOF ''x''))))"
proof -
  have l: "new_log world0 (snd (sendSingleFile Unix clock0 world0 None 0 [1, 2, 3] EOF ''x''))
     = [Observe 3, Display 3, Observe 0, Display 0, Final 0]"
    by (simp add: sendSingleFile_def sendFileInfo_logged_healthy sendContent_small Let_def
        world0_def conn0_def chunkSize_def NewProgressWriter_def printProgress_def
        set_current_def Finalize_def clock0_def new_log_def)
  have "fst (sendSingleFile Unix clock0 world0 None 0 [1, 2, 3] EOF ''x'') = None"
    by (rule send_small_ok) (simp_all add: chunkSize_def world0_def conn0_def)
  then show ?thesis by (simp add: l observations_def)
qed

theorem progress_monotone_witness:
  "sendSingleFile Unix clock0 world0 None 3 [1, 2, 3] EOF ''x''
     = (None, snd (sendSingleFile Unix clock0 world0 None 3 [1, 2, 3] EOF ''x'')) \<and>
   sorted (observations
     (new_log world0 (snd (sendSingleFile Unix clock0 world0 None 3 [1, 2, 3] EOF ''x'')))) \<and>
   last (observations
     (new_log world0 (snd (sendSingleFile Unix clock0 world0 None 3 [1, 2, 3] EOF ''x'')))) = 3 \<and>
   receiveContent Unix clock0 ''f'' 3 0
       (NewProgressWriter clock0 3 ''f'' (world0\<lparr>wconn := conn0\<lparr>inbuf := [1, 2, 3]\<rparr>\<rparr>))
     = Some (None, printProgress clock0 (set_current 3
         ((NewProgressWriter clock0 3 ''f'' (world0\<lparr>wconn := conn0\<lparr>inbuf := [1, 2, 3]\<rparr>\<rparr>))
            \<lparr>wconn := conn0, disk := \<lparr>nodes = [''f'' \<mapsto> FFile [1, 2, 3]], free = None\<rparr>\<rparr>))) \<and>
   last (observations (new_log (world0\<lparr>wconn := conn0\<lparr>inbuf := [1, 2, 3]\<rparr>\<rparr>)
      (Finalize clock0 (printProgress clock0 (set_current 3
        (printProgress clock0 (set_current 3
         ((NewProgressWriter clock0 3 ''f'' (world0\<lparr>wconn := conn0\<lparr>inbuf := [1, 2, 3]\<rparr>\<rparr>))
            \<lparr>wconn := conn0, disk := \<lparr>nodes = [''f'' \<mapsto> FFile [1, 2, 3]], free = None\<rparr>\<rparr>)))))))) = 3"
proof -
  let ?S = "sendSingleFile Unix clock0 world0 None 3 [1, 2, 3] EOF ''x''"
  let ?wR = "world0\<lparr>wconn := conn0\<lparr>inbuf := [1, 2, 3]\<rparr>\<rparr>"
  let ?w1 = "NewProgressWriter clock0 3 ''f'' ?wR"
  let ?v' = "printProgress clock0 (set_current 3
      (?w1\<lparr>wconn := conn0, disk := \<lparr>nodes = [''f'' \<mapsto> FFile [1, 2, 3]], free = None\<rparr>\<rparr>))"
  have "fst ?S = None" by (rule send_small_ok) (simp_all add: chunkSize_def world0_def conn0_def)
  then have s: "?S = (None, snd ?S)" by (simp add: prod_eq_iff)
  have len: "int (length [1, 2, 3 :: byte]) \<le> sint (3 :: 64 word)" by simp
  have cl: "Clean Unix ''f'' = ''f''" by code_simp
  have fw: "file_Write Unix (disk ?w1) ''f'' (take (nat (3 - 0)) (inbuf (wconn ?w1)))
      = (None, \<lparr>nodes = [''f'' \<mapsto> FFile [1, 2, 3]], free = None\<rparr>)"
    by (simp add: file_Write_def cl file_content_def world0_def)
  have "receiveContent Unix clock0 ''f'' 3 0 ?w1 = Some (None, printProgress clock0 (set_current 3
          (?w1\<lparr>wconn := (wconn ?w1)\<lparr>inbuf := drop (nat (3 - 0)) (inbuf (wconn ?w1))\<rparr>,
              disk := \<lparr>nodes = [''f'' \<mapsto> FFile [1, 2, 3]], free = None\<rparr>\<rparr>)))"
    by (rule receiveContent_one_chunk [OF _ _ _ fw]) (simp_all add: chunkSize_def)
  then have r: "receiveContent Unix clock0 ''f'' 3 0 ?w1 = Some (None, ?v')"
    by (simp add: conn0_def)
  from progress_monotone [where h = Unix and now = clock0 and w = world0 and statSize = 3
      and data = "[1, 2, 3]" and fend = EOF and name = "''x''" and w' = "snd ?S"
      and p = "''f''" and fileSize = 3 and nm = "''f''" and v = ?wR and v' = ?v'] s len r
  show ?thesis by simp
qed

end
